theory Spec2Isabelle
  imports Complex_Main "HOL-Library.Word"
begin

section \<open>The live session manager (services/geminiService)\<close>

text \<open>
  \<^verbatim>\<open>connectLiveTriageSession\<close> (avatar mode) and \<^verbatim>\<open>startLiveDictation\<close> (dictation mode)
  build the same object graph: a media stream, a source node, a script processor, an
  audio context, the promise of the network session, and two closure variables
  \<^verbatim>\<open>activeSession\<close> and \<^verbatim>\<open>isCleaningUp\<close>. Everything after the set-up is driven by events:
  the capture tap, the callbacks of the network session, the settlement of the session
  promise, and the returned stop function. The model is a step function over a record of
  the closure variables; every call the source makes on a collaborator (a track, a node,
  the session, a callback of the caller) is appended to a trace.
\<close>

subsection \<open>Server messages\<close>

text \<open>
  The fields the two \<^verbatim>\<open>onmessage\<close> callbacks read through optional chaining:
  \<^verbatim>\<open>msg.serverContent?.modelTurn?.parts?.[0]?.inlineData?.data\<close> and
  \<^verbatim>\<open>msg.serverContent?.inputTranscription?.text\<close>. An absent field is \<open>None\<close>.
\<close>

record inline_blob =
  blob_data :: "string option"

record content_part =
  inlineData :: "inline_blob option"

record model_content =
  parts :: "content_part list option"

record transcription =
  tr_text :: "string option"

record live_server_content =
  modelTurn :: "model_content option"
  inputTranscription :: "transcription option"

record live_server_message =
  serverContent :: "live_server_content option"

definition first_part :: "content_part list \<Rightarrow> content_part option" where
  "first_part ps = (case ps of [] \<Rightarrow> None | p # _ \<Rightarrow> Some p)"

definition message_audio :: "live_server_message \<Rightarrow> string option" where
  "message_audio msg =
     Option.bind (serverContent msg) (\<lambda>sc.
     Option.bind (modelTurn sc) (\<lambda>mt.
     Option.bind (parts mt) (\<lambda>ps.
     Option.bind (first_part ps) (\<lambda>p.
     Option.bind (inlineData p) blob_data))))"

definition message_text :: "live_server_message \<Rightarrow> string option" where
  "message_text msg =
     Option.bind (serverContent msg) (\<lambda>sc.
     Option.bind (inputTranscription sc) tr_text)"

text \<open>JavaScript truthiness of an optional string: defined and not empty.\<close>

definition truthy :: "string option \<Rightarrow> bool" where
  "truthy v = (case v of None \<Rightarrow> False | Some t \<Rightarrow> t \<noteq> [])"

subsection \<open>State, effects and events\<close>

datatype session_mode = Avatar | Dictation

datatype promise_state = Pending | Fulfilled | Rejected

text \<open>
  The callbacks the source registers on the session promise with \<^verbatim>\<open>.then\<close>:
  \<^verbatim>\<open>s => { activeSession = s; }\<close>, the guarded send of one encoded chunk, and
  \<^verbatim>\<open>s => s.close()\<close>.
\<close>

datatype continuation = SetActive | SendChunk string | CloseSession

text \<open>Every call on a collaborator, in the order the source makes it.\<close>

datatype effect =
    TrackStop nat
  | SourceDisconnect
  | ProcessorDisconnect
  | ContextClose
  | SessionClose
  | SendRealtimeInput string
  | OnOpen
  | OnAudioData string
  | OnTranscription string
  | OnClose
  | OnError

record live_state =
  mode :: session_mode
  tracks :: nat
  isCleaningUp :: bool
  activeSession :: bool
  sessionPromise :: promise_state
  thens :: "continuation list"
  contextClosed :: bool
  trace :: "effect list"

text \<open>
  The events of a session: the caller invokes the returned stop function; the capture tap
  delivers a frame (the event carries \<^verbatim>\<open>createPcmBlob(inputData)\<close>, a pure function of the
  frame); the session promise is fulfilled or rejected; the session calls \<^verbatim>\<open>onopen\<close>,
  \<^verbatim>\<open>onmessage\<close>, \<^verbatim>\<open>onclose\<close> or \<^verbatim>\<open>onerror\<close>; the audio context finishes closing (its
  \<^verbatim>\<open>state\<close> becomes \<^verbatim>\<open>'closed'\<close>).
\<close>

datatype live_event =
    StopFn
  | AudioProcess string
  | HandshakeResolved
  | HandshakeRejected
  | ServerOpen
  | ServerMessage live_server_message
  | RemoteClose
  | TransportError
  | ContextClosed

subsection \<open>The handlers\<close>

definition emit :: "effect \<Rightarrow> live_state \<Rightarrow> live_state" where
  "emit e s = s\<lparr>trace := trace s @ [e]\<rparr>"

fun run_then :: "continuation \<Rightarrow> live_state \<Rightarrow> live_state" where
  "run_then SetActive s = s\<lparr>activeSession := True\<rparr>"
| "run_then (SendChunk c) s =
     (if \<not> isCleaningUp s then emit (SendRealtimeInput c) s else s)"
| "run_then CloseSession s = emit SessionClose s"

text \<open>
  \<^verbatim>\<open>sessionPromise.then(k)\<close>: on a pending promise the callback waits for the settlement;
  on a fulfilled promise it runs as a microtask, before any other event is handled, and
  every call of \<^verbatim>\<open>then\<close> in the source is the last statement of its handler; on a rejected
  promise a callback without a rejection handler never runs.
\<close>

definition promise_then :: "continuation \<Rightarrow> live_state \<Rightarrow> live_state" where
  "promise_then k s =
     (case sessionPromise s of
        Pending \<Rightarrow> s\<lparr>thens := thens s @ [k]\<rparr>
      | Fulfilled \<Rightarrow> run_then k s
      | Rejected \<Rightarrow> s)"

text \<open>
  \<^verbatim>\<open>processor.onaudioprocess\<close>: the chunk is handed to a callback on the session promise,
  which sends it unless the cleaning-up flag is set when the callback runs.
\<close>

definition onaudioprocess :: "string \<Rightarrow> live_state \<Rightarrow> live_state" where
  "onaudioprocess pcmBlob s = promise_then (SendChunk pcmBlob) s"

text \<open>The function both set-ups return. No statement of it is skipped on a second call.\<close>

definition stop :: "live_state \<Rightarrow> live_state" where
  "stop s =
     (let s1 = s\<lparr>isCleaningUp := True\<rparr>;
          s2 = s1\<lparr>trace := trace s1 @ map TrackStop [0..<tracks s1]\<rparr>;
          s3 = emit SourceDisconnect s2;
          s4 = emit ProcessorDisconnect s3;
          s5 = (if \<not> contextClosed s4 then emit ContextClose s4 else s4)
      in if activeSession s5 then emit SessionClose s5
         else promise_then CloseSession s5)"

definition onopen :: "live_state \<Rightarrow> live_state" where
  "onopen s = (case mode s of Avatar \<Rightarrow> emit OnOpen s | Dictation \<Rightarrow> s)"

definition onmessage :: "live_server_message \<Rightarrow> live_state \<Rightarrow> live_state" where
  "onmessage msg s =
     (case mode s of
        Avatar \<Rightarrow>
          (let audioData = message_audio msg
           in if truthy audioData then emit (OnAudioData (the audioData)) s else s)
      | Dictation \<Rightarrow>
          (let t = message_text msg
           in if truthy t then emit (OnTranscription (the t)) s else s))"

definition onclose :: "live_state \<Rightarrow> live_state" where
  "onclose s = (if \<not> isCleaningUp s then emit OnClose s else s)"

definition onerror :: "live_state \<Rightarrow> live_state" where
  "onerror s = (case mode s of Avatar \<Rightarrow> emit OnClose s | Dictation \<Rightarrow> emit OnError s)"

text \<open>
  Fulfilment runs the waiting callbacks in the order of their registration. Rejection drops
  them; dictation mode has \<^verbatim>\<open>.catch(onError)\<close> on its first chain.
\<close>

definition resolve :: "live_state \<Rightarrow> live_state" where
  "resolve s =
     (case sessionPromise s of
        Pending \<Rightarrow> fold run_then (thens s) (s\<lparr>sessionPromise := Fulfilled, thens := []\<rparr>)
      | _ \<Rightarrow> s)"

definition reject :: "live_state \<Rightarrow> live_state" where
  "reject s =
     (case sessionPromise s of
        Pending \<Rightarrow>
          (let s1 = s\<lparr>sessionPromise := Rejected, thens := []\<rparr>
           in case mode s1 of Avatar \<Rightarrow> s1 | Dictation \<Rightarrow> emit OnError s1)
      | _ \<Rightarrow> s)"

definition context_closed :: "live_state \<Rightarrow> live_state" where
  "context_closed s =
     (if ContextClose \<in> set (trace s) then s\<lparr>contextClosed := True\<rparr> else s)"

fun live_step :: "live_event \<Rightarrow> live_state \<Rightarrow> live_state" where
  "live_step StopFn s = stop s"
| "live_step (AudioProcess c) s = onaudioprocess c s"
| "live_step HandshakeResolved s = resolve s"
| "live_step HandshakeRejected s = reject s"
| "live_step ServerOpen s = onopen s"
| "live_step (ServerMessage m) s = onmessage m s"
| "live_step RemoteClose s = onclose s"
| "live_step TransportError s = onerror s"
| "live_step ContextClosed s = context_closed s"

fun live_run :: "live_event list \<Rightarrow> live_state \<Rightarrow> live_state" where
  "live_run [] s = s"
| "live_run (e # es) s = live_run es (live_step e s)"

subsection \<open>Set-up\<close>

text \<open>
  Both set-ups await \<^verbatim>\<open>navigator.mediaDevices.getUserMedia({ audio: true })\<close> before
  \<^verbatim>\<open>ai.live.connect\<close> is called. A rejection of that promise (permission denied, no capture
  device) rejects the promise of the set-up itself; no callback has been registered then.
\<close>

datatype mic_outcome = Granted nat | Denied | NoDevice

datatype error = PermissionError | DecodeError | Base64Error

definition session_start :: "session_mode \<Rightarrow> nat \<Rightarrow> live_state" where
  "session_start m n =
     \<lparr>mode = m, tracks = n, isCleaningUp = False, activeSession = False,
      sessionPromise = Pending, thens = [SetActive], contextClosed = False, trace = []\<rparr>"

definition connectLiveTriageSession :: "mic_outcome \<Rightarrow> error + live_state" where
  "connectLiveTriageSession mic =
     (case mic of
        Granted n \<Rightarrow> Inr (session_start Avatar n)
      | _ \<Rightarrow> Inl PermissionError)"

definition startLiveDictation :: "mic_outcome \<Rightarrow> error + live_state" where
  "startLiveDictation mic =
     (case mic of
        Granted n \<Rightarrow> Inr (session_start Dictation n)
      | _ \<Rightarrow> Inl PermissionError)"

text \<open>
  A whole execution: the set-up, then the events of the session if there is one. The
  callbacks of the caller that ran are read off the trace.
\<close>

definition execution :: "(error + live_state) \<Rightarrow> live_event list \<Rightarrow> error + live_state" where
  "execution r evs = (case r of Inl e \<Rightarrow> Inl e | Inr s \<Rightarrow> Inr (live_run evs s))"

definition effects_of :: "(error + live_state) \<Rightarrow> effect list" where
  "effects_of r = (case r of Inl e \<Rightarrow> [] | Inr s \<Rightarrow> trace s)"

subsection \<open>Observations on a trace\<close>

fun sent_chunks :: "effect list \<Rightarrow> string list" where
  "sent_chunks [] = []"
| "sent_chunks (SendRealtimeInput c # es) = c # sent_chunks es"
| "sent_chunks (_ # es) = sent_chunks es"

fun captured :: "live_event list \<Rightarrow> string list" where
  "captured [] = []"
| "captured (AudioProcess c # es) = c # captured es"
| "captured (_ # es) = captured es"

fun inbound :: "effect list \<Rightarrow> effect list" where
  "inbound [] = []"
| "inbound (OnAudioData d # es) = OnAudioData d # inbound es"
| "inbound (OnTranscription t # es) = OnTranscription t # inbound es"
| "inbound (_ # es) = inbound es"

fun transcribed :: "live_event list \<Rightarrow> string list" where
  "transcribed [] = []"
| "transcribed (ServerMessage m # es) =
     (if truthy (message_text m) then the (message_text m) # transcribed es
      else transcribed es)"
| "transcribed (_ # es) = transcribed es"

text \<open>
  Two readings of a list of waiting callbacks, used to state what fulfilment does: the
  effects the callbacks have when they run under a given value of the cleaning-up flag,
  and the chunks that wait to be sent.
\<close>

fun then_effects :: "bool \<Rightarrow> continuation list \<Rightarrow> effect list" where
  "then_effects cl [] = []"
| "then_effects cl (SetActive # ks) = then_effects cl ks"
| "then_effects cl (SendChunk c # ks) =
     (if cl then [] else [SendRealtimeInput c]) @ then_effects cl ks"
| "then_effects cl (CloseSession # ks) = SessionClose # then_effects cl ks"

fun queued :: "continuation list \<Rightarrow> string list" where
  "queued [] = []"
| "queued (SendChunk c # ks) = c # queued ks"
| "queued (_ # ks) = queued ks"

text \<open>
  A run of events during which the handshake stays pending and the stop function is not
  called.
\<close>

definition handshake_open :: "live_event list \<Rightarrow> bool" where
  "handshake_open evs \<longleftrightarrow>
     StopFn \<notin> set evs \<and> HandshakeResolved \<notin> set evs \<and> HandshakeRejected \<notin> set evs"

text \<open>
  The release steps of the stop function that no condition guards: one stop per media
  track and the two disconnects.
\<close>

definition release_steps :: "nat \<Rightarrow> effect set" where
  "release_steps n = {SourceDisconnect, ProcessorDisconnect} \<union> TrackStop ` {..<n}"

text \<open>
  The calls of \<^verbatim>\<open>close\<close> on the session, made or waiting on the promise, and two invariants
  of the reachable states: a fulfilled promise has no callback waiting and a pending one
  has neither an active session nor a closed one; the audio context reports closed only
  after \<^verbatim>\<open>close\<close> was called on it.
\<close>

definition closes :: "live_state \<Rightarrow> nat" where
  "closes s = count_list (trace s) SessionClose + count_list (thens s) CloseSession"

definition promise_wf :: "live_state \<Rightarrow> bool" where
  "promise_wf s \<longleftrightarrow>
     (sessionPromise s = Fulfilled \<longrightarrow> thens s = []) \<and>
     (sessionPromise s = Pending \<longrightarrow> \<not> activeSession s \<and> SessionClose \<notin> set (trace s))"

definition context_wf :: "live_state \<Rightarrow> bool" where
  "context_wf s \<longleftrightarrow> (contextClosed s \<longrightarrow> ContextClose \<in> set (trace s))"

text \<open>Two server messages: one that carries audio only, one that carries a transcription.\<close>

definition audio_message :: "string \<Rightarrow> live_server_message" where
  "audio_message d =
     \<lparr>serverContent =
        Some \<lparr>modelTurn = Some \<lparr>parts = Some [\<lparr>inlineData = Some \<lparr>blob_data = Some d\<rparr>\<rparr>]\<rparr>,
              inputTranscription = None\<rparr>\<rparr>"

definition text_message :: "string \<Rightarrow> live_server_message" where
  "text_message t =
     \<lparr>serverContent =
        Some \<lparr>modelTurn = None, inputTranscription = Some \<lparr>tr_text = Some t\<rparr>\<rparr>\<rparr>"

section \<open>The sample codec (utils/audioUtils)\<close>

text \<open>
  The service imports \<^verbatim>\<open>createPcmBlob\<close> and the modal imports \<^verbatim>\<open>base64ToUint8Array\<close> and
  \<^verbatim>\<open>decodeAudioData\<close> from \<^verbatim>\<open>utils/audioUtils\<close>. A sample is a real number here: the
  properties below are about order and distance, and scaling by a power of two and the
  division that undoes it are exact on the sample type of the source.
\<close>

type_synonym byte = "8 word"

subsection \<open>Base64 transport text\<close>

text \<open>
  Modelled from the spec: the base64 text of an encoded chunk (``represented for transport
  as a base64-text encoding of the byte buffer'', ``decodes the base64 text to raw
  bytes''); the functions of \<^verbatim>\<open>utils/audioUtils\<close> that do it are missing from the sources.
  The alphabet is the standard one, three bytes make four characters, and the last group
  is padded with \<open>=\<close>.
\<close>

definition b64_alphabet :: string where
  "b64_alphabet = ''ABCDEFGHIJKLMNOPQRSTUVWXYZabcdefghijklmnopqrstuvwxyz0123456789+/''"

definition b64_char :: "nat \<Rightarrow> char" where
  "b64_char n = b64_alphabet ! (n mod 64)"

fun index_of :: "'a \<Rightarrow> 'a list \<Rightarrow> nat option" where
  "index_of x [] = None"
| "index_of x (y # ys) =
     (if x = y then Some 0 else map_option Suc (index_of x ys))"

definition b64_value :: "char \<Rightarrow> nat option" where
  "b64_value c = index_of c b64_alphabet"

fun b64_encode :: "byte list \<Rightarrow> string" where
  "b64_encode [] = []"
| "b64_encode [a] =
     (let x = unat a
      in [b64_char (x div 4), b64_char ((x mod 4) * 16), CHR ''='', CHR ''=''])"
| "b64_encode [a, b] =
     (let x = unat a; y = unat b
      in [b64_char (x div 4), b64_char ((x mod 4) * 16 + y div 16),
          b64_char ((y mod 16) * 4), CHR ''=''])"
| "b64_encode (a # b # c # rest) =
     (let x = unat a; y = unat b; z = unat c
      in [b64_char (x div 4), b64_char ((x mod 4) * 16 + y div 16),
          b64_char ((y mod 16) * 4 + z div 64), b64_char (z mod 64)] @ b64_encode rest)"

fun b64_decode :: "string \<Rightarrow> byte list option" where
  "b64_decode [] = Some []"
| "b64_decode (a # b # c # d # rest) =
     (case (b64_value a, b64_value b) of
        (Some x, Some y) \<Rightarrow>
          if c = CHR ''='' \<and> d = CHR ''='' \<and> rest = []
          then Some [of_nat (x * 4 + y div 16)]
          else (case b64_value c of
                  None \<Rightarrow> None
                | Some z \<Rightarrow>
                    if d = CHR ''='' \<and> rest = []
                    then Some [of_nat (x * 4 + y div 16), of_nat ((y mod 16) * 16 + z div 4)]
                    else (case b64_value d of
                            None \<Rightarrow> None
                          | Some w \<Rightarrow>
                              map_option
                                (\<lambda>bs. of_nat (x * 4 + y div 16) #
                                      of_nat ((y mod 16) * 16 + z div 4) #
                                      of_nat ((z mod 4) * 64 + w) # bs)
                                (b64_decode rest)))
      | _ \<Rightarrow> None)"
| "b64_decode _ = None"

text \<open>
  Modelled from the spec: \<^verbatim>\<open>base64ToUint8Array\<close> of \<^verbatim>\<open>utils/audioUtils\<close>, missing from the
  sources (``decodes the base64 text to raw bytes''). A text that is not base64 has no
  bytes; the call then throws.
\<close>

definition base64ToUint8Array :: "string \<Rightarrow> error + byte list" where
  "base64ToUint8Array t = (case b64_decode t of None \<Rightarrow> Inl Base64Error | Some bs \<Rightarrow> Inr bs)"

subsection \<open>The sample encoder\<close>

text \<open>
  Modelled from the spec: \<^verbatim>\<open>createPcmBlob\<close> of \<^verbatim>\<open>utils/audioUtils\<close>, missing from the
  sources. ``For each sample, clamp to [-1, 1], scale to the 16-bit signed integer range,
  and write as little-endian 16-bit integers into a contiguous byte buffer. Output: an
  EncodedChunk tagged with a fixed sample rate (16 kHz) and linear-PCM mime descriptor,
  represented for transport as a base64-text encoding of the byte buffer. [...] quantization
  error of at most one part in 2^15 per sample.'' The quantization step of one part in
  \<open>2^15\<close> is read as the scale: a clamped sample is multiplied by \<open>2^15\<close>, made an integer,
  and kept inside the 16-bit signed range \<open>-32768 .. 32767\<close>. The spec does not say how the
  scaled sample becomes an integer, so that conversion is a parameter: towards zero (what
  a store into a typed 16-bit array does), downwards, or to the nearest integer.
\<close>

datatype rounding = Truncate | Floor | Nearest

fun to_integer :: "rounding \<Rightarrow> real \<Rightarrow> int" where
  "to_integer Truncate x = (if 0 \<le> x then \<lfloor>x\<rfloor> else \<lceil>x\<rceil>)"
| "to_integer Floor x = \<lfloor>x\<rfloor>"
| "to_integer Nearest x = round x"

definition clamp :: "real \<Rightarrow> real" where
  "clamp s = max (- 1) (min 1 s)"

definition quantize :: "rounding \<Rightarrow> real \<Rightarrow> int" where
  "quantize r s = max (- 32768) (min 32767 (to_integer r (clamp s * 32768)))"

text \<open>
  Modelled from the spec: ``write as little-endian 16-bit integers into a contiguous byte
  buffer'', a step of the missing \<^verbatim>\<open>createPcmBlob\<close>. The two bytes of a 16-bit integer in
  two's complement, low byte first: \<open>word_of_int\<close> into a byte keeps the value modulo 256,
  and \<open>div 256\<close> on a negative integer rounds downwards, as an arithmetic shift does.
\<close>

definition int16_bytes :: "int \<Rightarrow> byte list" where
  "int16_bytes q = [word_of_int q, word_of_int (q div 256)]"

definition encode_frame :: "rounding \<Rightarrow> real list \<Rightarrow> byte list" where
  "encode_frame r frame = concat (map (\<lambda>s. int16_bytes (quantize r s)) frame)"

text \<open>
  Modelled from the spec: the EncodedChunk that the missing \<^verbatim>\<open>createPcmBlob\<close> returns, the
  base64 text of the bytes with its mime descriptor.
\<close>

record pcm_blob =
  pcm_data :: string
  mimeType :: string

definition createPcmBlob :: "rounding \<Rightarrow> real list \<Rightarrow> pcm_blob" where
  "createPcmBlob r frame =
     \<lparr>pcm_data = b64_encode (encode_frame r frame), mimeType = ''audio/pcm;rate=16000''\<rparr>"

subsection \<open>The sample decoder\<close>

text \<open>
  Modelled from the spec: the steps of \<^verbatim>\<open>decodeAudioData\<close> of \<^verbatim>\<open>utils/audioUtils\<close>, missing
  from the sources. ``Input: a [...] chunk plus target sample rate and channel count. [...]
  reinterprets as 16-bit PCM samples, and constructs a PlaybackBuffer whose duration =
  sample count / target sample rate. Fails with DecodeError if byte length is not a whole
  multiple of 2.'' Two bytes, low byte first, are one 16-bit sample in two's complement,
  and a 16-bit sample \<open>q\<close> is the amplitude \<open>q / 2^15\<close>.
\<close>

definition int16_of :: "byte \<Rightarrow> byte \<Rightarrow> int" where
  "int16_of lo hi =
     (let u = uint lo + 256 * uint hi in if u < 32768 then u else u - 65536)"

fun int16_samples :: "byte list \<Rightarrow> int list" where
  "int16_samples (lo # hi # rest) = int16_of lo hi # int16_samples rest"
| "int16_samples _ = []"

text \<open>
  The buffer of the audio platform: the samples (of all channels, interleaved), the
  number of channels and the sample rate. Its duration is the number of its frames over
  its sample rate.
\<close>

record audio_buffer =
  samples :: "real list"
  numberOfChannels :: nat
  sampleRate :: nat

definition duration :: "audio_buffer \<Rightarrow> real" where
  "duration b = real (length (samples b) div numberOfChannels b) / real (sampleRate b)"

text \<open>
  Modelled from the spec: \<^verbatim>\<open>decodeAudioData\<close> of \<^verbatim>\<open>utils/audioUtils\<close>, missing from the
  sources, with the failure on a misaligned chunk that the spec gives it.
\<close>

definition decodeAudioData :: "byte list \<Rightarrow> nat \<Rightarrow> nat \<Rightarrow> error + audio_buffer" where
  "decodeAudioData audioData rate numChannels =
     (if length audioData mod 2 \<noteq> 0 then Inl DecodeError
      else Inr \<lparr>samples = map (\<lambda>q. real_of_int q / 32768) (int16_samples audioData),
                numberOfChannels = numChannels, sampleRate = rate\<rparr>)"

section \<open>The avatar modal (components/VoiceAvatarModal)\<close>

text \<open>
  The modal passes three callbacks to \<^verbatim>\<open>connectLiveTriageSession\<close>. Its state is the two
  React states \<^verbatim>\<open>status\<close> and \<^verbatim>\<open>isTalking\<close>, the flag \<^verbatim>\<open>cleanup\<close> of the effect, and the refs.
  \<^verbatim>\<open>nextStartTimeRef\<close> is the playback cursor. The calls of
  \<^verbatim>\<open>source.start\<close> are logged with the duration of the buffer each source plays, and the
  rejections of the asynchronous audio callback (nothing in the source catches them) are
  logged as well.
\<close>

text \<open>
  The two functions the modal imports from \<^verbatim>\<open>utils/audioUtils\<close> are parameters of its
  model, so that what is proved of the modal holds whatever they compute; \<open>audioUtils\<close>
  is the pair of them as modelled above.
\<close>

record audio_utils =
  u_base64ToUint8Array :: "string \<Rightarrow> error + byte list"
  u_decodeAudioData :: "byte list \<Rightarrow> nat \<Rightarrow> nat \<Rightarrow> error + audio_buffer"

definition audioUtils :: audio_utils where
  "audioUtils =
     \<lparr>u_base64ToUint8Array = base64ToUint8Array, u_decodeAudioData = decodeAudioData\<rparr>"

text \<open>
  The two calls the modal makes on an inbound chunk:
  \<^verbatim>\<open>decodeAudioData(base64ToUint8Array(base64Audio), ctx, 24000, 1)\<close>.
\<close>

definition decode_chunk :: "audio_utils \<Rightarrow> string \<Rightarrow> error + audio_buffer" where
  "decode_chunk U t =
     (case u_base64ToUint8Array U t of
        Inl e \<Rightarrow> Inl e
      | Inr audioData \<Rightarrow> u_decodeAudioData U audioData 24000 1)"

datatype modal_status = Connecting | Connected | Error | Disconnected

record modal_state =
  status :: modal_status
  isTalking :: bool
  cleanup :: bool
  audioContextRef :: bool
  stopSessionRef :: bool
  nextStartTime :: real
  started :: "(real \<times> real) list"
  rejections :: "error list"
  stopCalls :: nat

text \<open>
  The events of a mounted modal: the set-up of the session returns its stop function, or
  it throws and the \<^verbatim>\<open>catch\<close> of \<^verbatim>\<open>startSession\<close> runs; the session calls one of the three
  callbacks; a scheduled source ends; the effect is cleaned up. The two events that read the output clock carry the value of \<^verbatim>\<open>ctx.currentTime\<close>
  they read. No assumption is made on these values, nor on the order of the events. Clock
  values and durations are real numbers, and the sum that advances the cursor is exact.
\<close>

datatype modal_event =
    SessionReady
  | StartFailed
  | Opened
  | AudioArrived real string
  | PlaybackEnded real
  | SessionClosed
  | Unmounted

text \<open>
  The state in which \<^verbatim>\<open>startSession\<close> hands the callbacks to the service. The cursor, the
  indicator and \<^verbatim>\<open>stopSessionRef\<close> belong to the component and are not reset by the effect,
  so a session starts with what the one before left; on the first mount they are 0, false
  and empty.
\<close>

definition modal_start :: "real \<Rightarrow> bool \<Rightarrow> bool \<Rightarrow> modal_state" where
  "modal_start cursor talking stopRef =
     \<lparr>status = Connecting, isTalking = talking, cleanup = False, audioContextRef = True,
      stopSessionRef = stopRef, nextStartTime = cursor, started = [], rejections = [],
      stopCalls = 0\<rparr>"

definition first_mount :: modal_state where
  "first_mount = modal_start 0 False False"

text \<open>
  The statements after the decoding: the cursor is moved up to the clock if the clock has
  passed it, the source is started at the cursor, the cursor is advanced by the duration.
\<close>

definition schedule :: "real \<Rightarrow> audio_buffer \<Rightarrow> modal_state \<Rightarrow> modal_state" where
  "schedule currentTime buffer st =
     (let st1 = (if nextStartTime st < currentTime then st\<lparr>nextStartTime := currentTime\<rparr> else st);
          st2 = st1\<lparr>started := started st1 @ [(nextStartTime st1, duration buffer)]\<rparr>
      in st2\<lparr>nextStartTime := nextStartTime st2 + duration buffer\<rparr>)"

text \<open>
  The audio callback. It awaits \<^verbatim>\<open>decodeAudioData\<close>; the decoder the spec describes
  builds the buffer from the bytes, with no suspension point of its own, so the statements
  after the \<^verbatim>\<open>await\<close> run before any other event is handled, and the callback is one step
  of the model. A failure of either call rejects the promise of the callback: the
  statements after the \<^verbatim>\<open>await\<close> do not run.
\<close>

definition onAudioData ::
  "audio_utils \<Rightarrow> real \<Rightarrow> string \<Rightarrow> modal_state \<Rightarrow> modal_state" where
  "onAudioData U currentTime base64Audio st =
     (if cleanup st then st
      else
        let st1 = st\<lparr>isTalking := True\<rparr>
        in if audioContextRef st1
           then (case u_base64ToUint8Array U base64Audio of
                   Inl e \<Rightarrow> st1\<lparr>rejections := rejections st1 @ [e]\<rparr>
                 | Inr audioData \<Rightarrow>
                     (case u_decodeAudioData U audioData 24000 1 of
                        Inl e \<Rightarrow> st1\<lparr>rejections := rejections st1 @ [e]\<rparr>
                      | Inr buffer \<Rightarrow> schedule currentTime buffer st1))
           else st1)"

definition onended :: "real \<Rightarrow> modal_state \<Rightarrow> modal_state" where
  "onended currentTime st =
     (if currentTime \<ge> nextStartTime st - 1 / 10 then st\<lparr>isTalking := False\<rparr> else st)"

definition onOpen :: "modal_state \<Rightarrow> modal_state" where
  "onOpen st = (if \<not> cleanup st then st\<lparr>status := Connected\<rparr> else st)"

definition onClose :: "modal_state \<Rightarrow> modal_state" where
  "onClose st = (if \<not> cleanup st then st\<lparr>status := Disconnected\<rparr> else st)"

text \<open>
  The clean-up of the effect sets the flag and calls the stop function of the session if
  the ref holds one. It also releases the stream, the nodes and the audio context of the
  modal itself; nothing in the callbacks reads them afterwards, and they are left out.
\<close>

definition unmount :: "modal_state \<Rightarrow> modal_state" where
  "unmount st =
     (let st1 = st\<lparr>cleanup := True\<rparr>
      in if stopSessionRef st1 then st1\<lparr>stopCalls := stopCalls st1 + 1\<rparr> else st1)"

fun modal_step :: "audio_utils \<Rightarrow> modal_event \<Rightarrow> modal_state \<Rightarrow> modal_state" where
  "modal_step U SessionReady st = st\<lparr>stopSessionRef := True\<rparr>"
| "modal_step U StartFailed st = st\<lparr>status := Error\<rparr>"
| "modal_step U Opened st = onOpen st"
| "modal_step U (AudioArrived t c) st = onAudioData U t c st"
| "modal_step U (PlaybackEnded t) st = onended t st"
| "modal_step U SessionClosed st = onClose st"
| "modal_step U Unmounted st = unmount st"

fun modal_run :: "audio_utils \<Rightarrow> modal_event list \<Rightarrow> modal_state \<Rightarrow> modal_state" where
  "modal_run U [] st = st"
| "modal_run U (e # es) st = modal_run U es (modal_step U e st)"

subsection \<open>Observations on a schedule\<close>

text \<open>
  A schedule is the list of the started sources, each with its start time and its
  duration. No source starts before the one scheduled before it has ended; the horizon of
  a schedule is the end of its last source, or the initial cursor when it is empty.
\<close>

fun no_overlap :: "(real \<times> real) list \<Rightarrow> bool" where
  "no_overlap [] = True"
| "no_overlap [p] = True"
| "no_overlap (p # q # rest) = (fst p + snd p \<le> fst q \<and> no_overlap (q # rest))"

definition horizon :: "real \<Rightarrow> (real \<times> real) list \<Rightarrow> real" where
  "horizon cursor sched = (case sched of [] \<Rightarrow> cursor | _ \<Rightarrow> fst (last sched) + snd (last sched))"

definition schedule_inv :: "real \<Rightarrow> modal_state \<Rightarrow> bool" where
  "schedule_inv cursor st \<longleftrightarrow>
     audioContextRef st \<and>
     nextStartTime st = horizon cursor (started st) \<and>
     no_overlap (started st) \<and>
     sorted (map fst (started st)) \<and>
     (\<forall>p \<in> set (started st). 0 \<le> snd p)"

text \<open>
  Two states of the modal that differ in the speaking indicator and in one rejection
  logged after the rejections \<open>pre\<close>, and in nothing else.
\<close>

definition same_schedule :: "error list \<Rightarrow> modal_state \<Rightarrow> modal_state \<Rightarrow> bool" where
  "same_schedule pre a b \<longleftrightarrow>
     status b = status a \<and> cleanup b = cleanup a \<and> audioContextRef b = audioContextRef a \<and>
     stopSessionRef b = stopSessionRef a \<and> nextStartTime b = nextStartTime a \<and>
     started b = started a \<and> stopCalls b = stopCalls a \<and>
     (\<exists>x. rejections a = pre @ x \<and> rejections b = pre @ DecodeError # x)"

section \<open>Properties of the live session manager\<close>

subsection \<open>The handlers in closed form\<close>

lemma live_run_append: "live_run (xs @ ys) s = live_run ys (live_run xs s)"
  by (induction xs arbitrary: s) simp_all

lemma run_then_eq:
  "run_then k s =
     s\<lparr>activeSession := activeSession s \<or> SetActive \<in> set [k],
       trace := trace s @ then_effects (isCleaningUp s) [k]\<rparr>"
  by (cases k) (simp_all add: emit_def)

lemma then_effects_append:
  "then_effects cl (ks @ ls) = then_effects cl ks @ then_effects cl ls"
  by (induction cl ks rule: then_effects.induct) simp_all

lemma fold_run_then_eq:
  "fold run_then ks s =
     s\<lparr>activeSession := activeSession s \<or> SetActive \<in> set ks,
       trace := trace s @ then_effects (isCleaningUp s) ks\<rparr>"
proof (induction ks arbitrary: s)
  case Nil
  show ?case by simp
next
  case (Cons k ks)
  have a: "then_effects (isCleaningUp s) (k # ks) =
        then_effects (isCleaningUp s) [k] @ then_effects (isCleaningUp s) ks"
    using then_effects_append [of "isCleaningUp s" "[k]" ks] by simp
  have "fold run_then (k # ks) s = fold run_then ks (run_then k s)" by simp
  also have "\<dots> = (run_then k s)\<lparr>activeSession := activeSession (run_then k s) \<or> SetActive \<in> set ks,
       trace := trace (run_then k s) @ then_effects (isCleaningUp (run_then k s)) ks\<rparr>"
    by (rule Cons.IH)
  also have "\<dots> = s\<lparr>activeSession := activeSession s \<or> SetActive \<in> set (k # ks),
       trace := trace s @ then_effects (isCleaningUp s) (k # ks)\<rparr>"
    unfolding a by (simp add: run_then_eq)
  finally show ?case .
qed

lemma resolve_eq:
  "resolve s =
     (if sessionPromise s = Pending
      then s\<lparr>sessionPromise := Fulfilled, thens := [],
             activeSession := activeSession s \<or> SetActive \<in> set (thens s),
             trace := trace s @ then_effects (isCleaningUp s) (thens s)\<rparr>
      else s)"
  by (simp add: resolve_def fold_run_then_eq split: promise_state.splits)

lemma stop_eq:
  "stop s =
     s\<lparr>isCleaningUp := True,
       thens := thens s @
         (if \<not> activeSession s \<and> sessionPromise s = Pending then [CloseSession] else []),
       trace := trace s @ map TrackStop [0..<tracks s] @
         [SourceDisconnect, ProcessorDisconnect] @
         (if contextClosed s then [] else [ContextClose]) @
         (if activeSession s \<or> sessionPromise s = Fulfilled then [SessionClose] else [])\<rparr>"
  by (simp add: stop_def Let_def emit_def promise_then_def split: promise_state.splits)

lemma onaudioprocess_eq:
  "onaudioprocess c s =
     (case sessionPromise s of
        Pending \<Rightarrow> s\<lparr>thens := thens s @ [SendChunk c]\<rparr>
      | Fulfilled \<Rightarrow> s\<lparr>trace := trace s @ (if isCleaningUp s then [] else [SendRealtimeInput c])\<rparr>
      | Rejected \<Rightarrow> s)"
  by (simp add: onaudioprocess_def promise_then_def emit_def split: promise_state.splits)

lemmas handler_eqs =
  stop_eq onaudioprocess_eq resolve_eq reject_def onopen_def onmessage_def onclose_def
  onerror_def context_closed_def emit_def Let_def

text \<open>Fields no handler (or only the stop function) writes.\<close>

lemma live_step_mode: "mode (live_step e s) = mode s"
  by (cases e) (simp_all add: handler_eqs split: promise_state.splits session_mode.splits)

lemma live_step_tracks: "tracks (live_step e s) = tracks s"
  by (cases e) (simp_all add: handler_eqs split: promise_state.splits session_mode.splits)

lemma live_step_cleaning_kept: "isCleaningUp s \<Longrightarrow> isCleaningUp (live_step e s)"
  by (cases e) (simp_all add: handler_eqs split: promise_state.splits session_mode.splits)

lemma live_run_mode: "mode (live_run evs s) = mode s"
  by (induction evs arbitrary: s) (simp_all add: live_step_mode)

lemma live_run_tracks: "tracks (live_run evs s) = tracks s"
  by (induction evs arbitrary: s) (simp_all add: live_step_tracks)

lemma live_run_cleaning_kept: "isCleaningUp s \<Longrightarrow> isCleaningUp (live_run evs s)"
  by (induction evs arbitrary: s) (simp_all add: live_step_cleaning_kept)

subsection \<open>Nothing is sent after the stop function\<close>

lemma sent_chunks_append: "sent_chunks (xs @ ys) = sent_chunks xs @ sent_chunks ys"
  by (induction xs rule: sent_chunks.induct) simp_all

lemma sent_chunks_TrackStop: "sent_chunks (map TrackStop ns) = []"
  by (induction ns) simp_all

lemma sent_then_effects:
  "sent_chunks (then_effects cl ks) = (if cl then [] else queued ks)"
  by (induction cl ks rule: then_effects.induct) (simp_all add: sent_chunks_append)

lemma live_step_cleaning_sent:
  "isCleaningUp s \<Longrightarrow> sent_chunks (trace (live_step e s)) = sent_chunks (trace s)"
  by (cases e)
    (simp_all add: handler_eqs sent_chunks_append sent_chunks_TrackStop sent_then_effects
       split: promise_state.splits session_mode.splits)

lemma live_run_cleaning_sent:
  "isCleaningUp s \<Longrightarrow> sent_chunks (trace (live_run evs s)) = sent_chunks (trace s)"
proof (induction evs arbitrary: s)
  case Nil
  show ?case by simp
next
  case (Cons e evs)
  from Cons.prems have "isCleaningUp (live_step e s)" by (rule live_step_cleaning_kept)
  from Cons.IH [OF this] live_step_cleaning_sent [OF Cons.prems, of e]
  show ?case by simp
qed

lemma stop_sent: "sent_chunks (trace (stop s)) = sent_chunks (trace s)"
  by (simp add: stop_eq sent_chunks_append sent_chunks_TrackStop)

text \<open>
  Claim C9. In both modes, once the stop function has been invoked no further encoded chunk
  is sent on the session: whatever happened before the call (\<open>before\<close>) and whatever
  happens after it (\<open>after\<close>: frames delivered by the tap, the fulfilment of the session
  promise with callbacks still waiting on it, further calls of the stop function), the
  chunks sent are those that had been sent when the stop function was called. The state
  \<open>s\<close> is arbitrary, so the statement covers avatar and dictation mode.
\<close>

theorem no_send_after_stop:
  "sent_chunks (trace (live_run (before @ StopFn # after) s)) =
   sent_chunks (trace (live_run before s))"
proof -
  let ?t = "live_run before s"
  have "isCleaningUp (stop ?t)" by (simp add: stop_eq)
  from live_run_cleaning_sent [OF this, of after] show ?thesis
    by (simp add: live_run_append stop_sent)
qed

text \<open>
  Two runs: in avatar mode a frame captured during the handshake is not sent when the
  stop function is called before the promise is fulfilled; in dictation mode the chunk
  sent before the stop function stays the only one.
\<close>

theorem no_send_after_stop_witness:
  "sent_chunks (trace (live_run ([AudioProcess ''AAAA''] @ StopFn # [HandshakeResolved, AudioProcess ''BBBB''])
      (session_start Avatar 1))) = [] \<and>
   sent_chunks (trace (live_run ([HandshakeResolved, AudioProcess ''AAAA''] @ StopFn # [AudioProcess ''BBBB''])
      (session_start Dictation 1))) = [''AAAA'']"
  using no_send_after_stop [of "[AudioProcess ''AAAA'']" "[HandshakeResolved, AudioProcess ''BBBB'']" "session_start Avatar 1"]
    no_send_after_stop [of "[HandshakeResolved, AudioProcess ''AAAA'']" "[AudioProcess ''BBBB'']" "session_start Dictation 1"]
  by (simp add: session_start_def onaudioprocess_def promise_then_def resolve_def emit_def)

subsection \<open>The close callback after the stop function\<close>

lemma count_TrackStop [simp]: "count_list (map TrackStop ns) OnClose = 0"
  by (induction ns) simp_all

lemma count_then_effects_OnClose [simp]: "count_list (then_effects cl ks) OnClose = 0"
  by (induction cl ks rule: then_effects.induct) simp_all

lemma live_step_cleaning_onclose:
  "isCleaningUp s \<Longrightarrow> mode s = Avatar \<Longrightarrow>
     count_list (trace (live_step e s)) OnClose =
     count_list (trace s) OnClose + (if e = TransportError then 1 else 0)"
  by (cases e) (simp_all add: handler_eqs split: promise_state.splits)

lemma live_run_cleaning_onclose:
  "isCleaningUp s \<Longrightarrow> mode s = Avatar \<Longrightarrow>
     count_list (trace (live_run evs s)) OnClose =
     count_list (trace s) OnClose + count_list evs TransportError"
proof (induction evs arbitrary: s)
  case Nil
  show ?case by simp
next
  case (Cons e evs)
  have a: "isCleaningUp (live_step e s)" using Cons.prems(1) by (rule live_step_cleaning_kept)
  have b: "mode (live_step e s) = Avatar" using Cons.prems(2) by (simp add: live_step_mode)
  from Cons.IH [OF a b] live_step_cleaning_onclose [OF Cons.prems, of e]
  show ?case by simp
qed

text \<open>
  Claim C10. In avatar mode, after the stop function has been invoked, a remote close does
  not invoke the caller's \<^verbatim>\<open>onClose\<close> and every transport error does: the number of calls of
  \<^verbatim>\<open>onClose\<close> made after the stop function is the number of transport errors after it, and
  one more remote close adds none. A transport error invokes \<^verbatim>\<open>onClose\<close> in every state.
\<close>

theorem onclose_after_stop:
  assumes "mode s = Avatar"
  shows "count_list (trace (live_run (before @ StopFn # after) s)) OnClose =
           count_list (trace (live_run before s)) OnClose + count_list after TransportError \<and>
         count_list (trace (live_step RemoteClose (live_run (before @ StopFn # after) s))) OnClose =
           count_list (trace (live_run (before @ StopFn # after) s)) OnClose \<and>
         count_list (trace (live_step TransportError s)) OnClose =
           count_list (trace s) OnClose + 1"
proof -
  let ?t = "live_run before s" and ?u = "live_run (before @ StopFn # after) s"
  have a: "isCleaningUp (stop ?t)" by (simp add: stop_eq)
  have b: "mode (stop ?t) = Avatar" using assms by (simp add: stop_eq live_run_mode)
  have c: "count_list (trace (stop ?t)) OnClose = count_list (trace ?t) OnClose"
    by (simp add: stop_eq)
  from live_run_cleaning_onclose [OF a b, of after] c
  have d: "count_list (trace ?u) OnClose =
           count_list (trace ?t) OnClose + count_list after TransportError"
    by (simp add: live_run_append)
  have "isCleaningUp ?u"
    using live_run_cleaning_kept [OF a, of after] by (simp add: live_run_append)
  then have e: "count_list (trace (live_step RemoteClose ?u)) OnClose =
                count_list (trace ?u) OnClose"
    by (simp add: onclose_def)
  have f: "count_list (trace (live_step TransportError s)) OnClose =
           count_list (trace s) OnClose + 1"
    using assms by (simp add: onerror_def emit_def)
  from d e f show ?thesis by simp
qed

text \<open>
  A run with a remote close before the stop function (one call), and two remote closes and
  two transport errors after it (two more calls).
\<close>

theorem onclose_after_stop_witness:
  "mode (session_start Avatar 1) = Avatar \<and>
   count_list (trace (live_run ([RemoteClose] @ StopFn # [RemoteClose, TransportError, RemoteClose, TransportError])
      (session_start Avatar 1))) OnClose = 3"
  using onclose_after_stop [of "session_start Avatar 1" "[RemoteClose]"
      "[RemoteClose, TransportError, RemoteClose, TransportError]"]
  by (simp add: session_start_def onclose_def emit_def)

subsection \<open>Frames captured during the handshake\<close>

lemma queued_append: "queued (ks @ ls) = queued ks @ queued ls"
  by (induction ks rule: queued.induct) simp_all

lemma live_step_pending:
  "sessionPromise s = Pending \<Longrightarrow> \<not> isCleaningUp s \<Longrightarrow> handshake_open [e] \<Longrightarrow>
     sessionPromise (live_step e s) = Pending \<and> \<not> isCleaningUp (live_step e s) \<and>
     sent_chunks (trace (live_step e s)) = sent_chunks (trace s) \<and>
     queued (thens (live_step e s)) = queued (thens s) @ captured [e]"
  by (cases e)
    (simp_all add: handler_eqs handshake_open_def sent_chunks_append queued_append
       split: session_mode.splits)

lemma live_run_pending:
  "sessionPromise s = Pending \<Longrightarrow> \<not> isCleaningUp s \<Longrightarrow> handshake_open evs \<Longrightarrow>
     sessionPromise (live_run evs s) = Pending \<and> \<not> isCleaningUp (live_run evs s) \<and>
     sent_chunks (trace (live_run evs s)) = sent_chunks (trace s) \<and>
     queued (thens (live_run evs s)) = queued (thens s) @ captured evs"
proof (induction evs arbitrary: s)
  case Nil
  then show ?case by simp
next
  case (Cons e evs)
  have e: "handshake_open [e]" and r: "handshake_open evs"
    using Cons.prems(3) by (auto simp: handshake_open_def)
  note st = live_step_pending [OF Cons.prems(1,2) e]
  from st have a: "sessionPromise (live_step e s) = Pending"
    and b: "\<not> isCleaningUp (live_step e s)" by simp_all
  have c: "captured (e # evs) = captured [e] @ captured evs"
    by (cases e) simp_all
  from Cons.IH [OF a b r] st show ?case
    by (simp add: c)
qed

lemma live_step_rejected:
  "sessionPromise s = Rejected \<Longrightarrow>
     sessionPromise (live_step e s) = Rejected \<and>
     sent_chunks (trace (live_step e s)) = sent_chunks (trace s)"
  by (cases e)
    (simp_all add: handler_eqs sent_chunks_append sent_chunks_TrackStop
       split: session_mode.splits)

lemma live_run_rejected:
  "sessionPromise s = Rejected \<Longrightarrow>
     sessionPromise (live_run evs s) = Rejected \<and>
     sent_chunks (trace (live_run evs s)) = sent_chunks (trace s)"
proof (induction evs arbitrary: s)
  case Nil
  then show ?case by simp
next
  case (Cons e evs)
  note st = live_step_rejected [OF Cons.prems, of e]
  from st have "sessionPromise (live_step e s) = Rejected" by simp
  from Cons.IH [OF this] st show ?case by simp
qed

text \<open>
  Claim C3, as the source has it. The claim says that a frame delivered while the handshake
  is pending is dropped and never transmitted. The source hands the chunk to
  \<^verbatim>\<open>sessionPromise.then\<close>, so the send waits for the handshake: nothing is sent while the
  promise is pending, and when it is fulfilled every chunk captured until then is sent, in
  the order of capture. The chunks are dropped only when the stop function is called
  before the fulfilment, or when the handshake fails.
\<close>

theorem handshake_frames_deferred:
  assumes "handshake_open evs"
  shows "sent_chunks (trace (live_run evs (session_start m n))) = [] \<and>
         sent_chunks (trace (live_run (evs @ [HandshakeResolved]) (session_start m n))) =
           captured evs \<and>
         sent_chunks (trace (live_run (evs @ StopFn # HandshakeResolved # rest)
           (session_start m n))) = [] \<and>
         sent_chunks (trace (live_run (evs @ HandshakeRejected # rest) (session_start m n))) = []"
proof -
  let ?s = "session_start m n" and ?t = "live_run evs (session_start m n)"
  have p: "sessionPromise ?s = Pending" and c: "\<not> isCleaningUp ?s"
    by (simp_all add: session_start_def)
  note inv = live_run_pending [OF p c assms]
  have q: "queued (thens ?t) = captured evs" and z: "sent_chunks (trace ?t) = []"
    using inv by (simp_all add: session_start_def)
  have a: "sent_chunks (trace (live_run (evs @ [HandshakeResolved]) ?s)) = captured evs"
    using inv q z by (simp add: live_run_append resolve_eq sent_chunks_append sent_then_effects)
  have "isCleaningUp (stop ?t)" by (simp add: stop_eq)
  from live_run_cleaning_sent [OF this, of "HandshakeResolved # rest"]
  have b: "sent_chunks (trace (live_run (evs @ StopFn # HandshakeResolved # rest) ?s)) = []"
    using z by (simp add: live_run_append stop_sent)
  have r: "sessionPromise (reject ?t) = Rejected"
    and "sent_chunks (trace (reject ?t)) = sent_chunks (trace ?t)"
    using inv
    by (simp_all add: reject_def Let_def emit_def sent_chunks_append split: session_mode.splits)
  with live_run_rejected [OF r, of rest]
  have d: "sent_chunks (trace (live_run (evs @ HandshakeRejected # rest) ?s)) = []"
    using z by (simp add: live_run_append)
  from z a b d show ?thesis by simp
qed

text \<open>
  Against claim C3 as stated: a chunk captured before the session is open is transmitted
  once the handshake is done.
\<close>

theorem handshake_frames_counterexample:
  "sent_chunks (trace (live_run [AudioProcess ''AAAA'', ServerOpen, HandshakeResolved]
     (session_start Avatar 1))) = [''AAAA'']"
  by (simp add: session_start_def onaudioprocess_def promise_then_def resolve_def emit_def onopen_def)

text \<open>Two frames captured during the handshake, with the open callback between them.\<close>

theorem handshake_frames_deferred_witness:
  "handshake_open [AudioProcess ''AAAA'', ServerOpen, AudioProcess ''BBBB''] \<and>
   sent_chunks (trace (live_run ([AudioProcess ''AAAA'', ServerOpen, AudioProcess ''BBBB''] @ [HandshakeResolved])
     (session_start Avatar 1))) = [''AAAA'', ''BBBB'']"
  using handshake_frames_deferred [of "[AudioProcess ''AAAA'', ServerOpen, AudioProcess ''BBBB'']" Avatar 1]
  by (simp add: handshake_open_def)

subsection \<open>How often the release steps run\<close>

lemma count_list_pos_iff: "0 < count_list xs x \<longleftrightarrow> x \<in> set xs"
  by (induction xs) auto

lemma count_upt: "count_list [0..<n] i = (if i < n then 1 else 0)"
  by (induction n) simp_all

lemma count_TrackStop_map: "count_list (map TrackStop ns) (TrackStop i) = count_list ns i"
  by (induction ns) simp_all

lemma count_TrackStop_other:
  "(\<And>i. x \<noteq> TrackStop i) \<Longrightarrow> count_list (map TrackStop ns) x = 0"
  by (induction ns) auto

lemma count_then_effects_other:
  "x \<noteq> SessionClose \<Longrightarrow> (\<And>c. x \<noteq> SendRealtimeInput c) \<Longrightarrow>
     count_list (then_effects cl ks) x = 0"
  by (induction cl ks rule: then_effects.induct) auto

lemma count_then_effects_close:
  "count_list (then_effects cl ks) SessionClose = count_list ks CloseSession"
  by (induction cl ks rule: then_effects.induct) auto

lemma live_step_release:
  assumes "x \<in> release_steps (tracks s)"
  shows "count_list (trace (live_step ev s)) x =
         count_list (trace s) x + (if ev = StopFn then 1 else 0)"
proof -
  from assms consider "x = SourceDisconnect" | "x = ProcessorDisconnect"
    | i where "x = TrackStop i" "i < tracks s"
    by (auto simp: release_steps_def)
  then show ?thesis
  proof cases
    case 1
    then show ?thesis
      by (cases ev)
        (simp_all add: handler_eqs count_TrackStop_other count_then_effects_other
           split: promise_state.splits session_mode.splits)
  next
    case 2
    then show ?thesis
      by (cases ev)
        (simp_all add: handler_eqs count_TrackStop_other count_then_effects_other
           split: promise_state.splits session_mode.splits)
  next
    case 3
    then show ?thesis
      by (cases ev)
        (simp_all add: handler_eqs count_TrackStop_map count_upt count_then_effects_other
           split: promise_state.splits session_mode.splits)
  qed
qed

lemma live_run_release:
  "x \<in> release_steps (tracks s) \<Longrightarrow>
     count_list (trace (live_run evs s)) x = count_list (trace s) x + count_list evs StopFn"
proof (induction evs arbitrary: s)
  case Nil
  show ?case by simp
next
  case (Cons e evs)
  from Cons.prems have "x \<in> release_steps (tracks (live_step e s))"
    by (simp add: live_step_tracks)
  from Cons.IH [OF this] live_step_release [OF Cons.prems, of e]
  show ?case by simp
qed

lemma live_step_rejected_kept:
  "sessionPromise s = Rejected \<Longrightarrow> sessionPromise (live_step e s) = Rejected"
  by (cases e) (simp_all add: handler_eqs split: session_mode.splits)

lemma live_run_rejected_kept:
  "sessionPromise s = Rejected \<Longrightarrow> sessionPromise (live_run evs s) = Rejected"
  by (induction evs arbitrary: s) (simp_all add: live_step_rejected_kept)

lemma live_step_closes:
  assumes "promise_wf s" and "sessionPromise (live_step e s) \<noteq> Rejected"
  shows "promise_wf (live_step e s) \<and>
         closes (live_step e s) = closes s + (if e = StopFn then 1 else 0)"
proof -
  have nr: "sessionPromise s \<noteq> Rejected"
    using assms(2) live_step_rejected_kept [of s e] by blast
  then consider "sessionPromise s = Pending" | "sessionPromise s = Fulfilled"
    by (cases "sessionPromise s") simp_all
  then show ?thesis
  proof cases
    case 1
    with assms show ?thesis
      by (cases e)
        (auto simp: handler_eqs promise_wf_def closes_def count_TrackStop_other
           count_then_effects_other count_then_effects_close count_list_0_iff
           split: session_mode.splits)
  next
    case 2
    with assms show ?thesis
      by (cases e)
        (auto simp: handler_eqs promise_wf_def closes_def count_TrackStop_other
           count_then_effects_other count_then_effects_close
           split: session_mode.splits)
  qed
qed

lemma live_run_closes:
  "promise_wf s \<Longrightarrow> sessionPromise (live_run evs s) \<noteq> Rejected \<Longrightarrow>
     promise_wf (live_run evs s) \<and> closes (live_run evs s) = closes s + count_list evs StopFn"
proof (induction evs arbitrary: s)
  case Nil
  then show ?case by simp
next
  case (Cons e evs)
  have nr: "sessionPromise (live_step e s) \<noteq> Rejected"
    using Cons.prems(2) live_run_rejected_kept [of "live_step e s" evs] by auto
  note st = live_step_closes [OF Cons.prems(1) nr]
  from st have w: "promise_wf (live_step e s)" by simp
  from Cons.prems(2) have "sessionPromise (live_run evs (live_step e s)) \<noteq> Rejected" by simp
  from Cons.IH [OF w this] st show ?case by simp
qed

lemma live_step_context:
  assumes "context_wf s"
  shows "context_wf (live_step e s) \<and>
         count_list (trace s) ContextClose \<le> count_list (trace (live_step e s)) ContextClose \<and>
         count_list (trace (live_step e s)) ContextClose \<le>
           count_list (trace s) ContextClose + (if e = StopFn then 1 else 0) \<and>
         (e = StopFn \<longrightarrow> 0 < count_list (trace (live_step e s)) ContextClose)"
  using assms
  by (cases e)
    (auto simp: handler_eqs context_wf_def count_TrackStop_other count_then_effects_other
       count_list_pos_iff
       split: session_mode.splits promise_state.splits)

lemma live_run_context:
  "context_wf s \<Longrightarrow>
     context_wf (live_run evs s) \<and>
     count_list (trace s) ContextClose \<le> count_list (trace (live_run evs s)) ContextClose \<and>
     count_list (trace (live_run evs s)) ContextClose \<le>
       count_list (trace s) ContextClose + count_list evs StopFn \<and>
     (StopFn \<in> set evs \<longrightarrow> 0 < count_list (trace (live_run evs s)) ContextClose)"
proof (induction evs arbitrary: s)
  case Nil
  then show ?case by simp
next
  case (Cons e evs)
  note st = live_step_context [OF Cons.prems, of e]
  from st have "context_wf (live_step e s)" by simp
  from Cons.IH [OF this] st show ?case by auto
qed

text \<open>
  Claim C2, as the source has it. The claim says that \<open>N\<close> calls of the stop function
  execute each release step exactly once. The stop function has no guard of its own: every
  call stops the tracks, disconnects the source and the processor, and closes the session
  (at once when the session is there, otherwise through a callback that waits for the
  handshake). So in a run with \<open>N\<close> calls of the stop function, in any order with remote
  closes, transport errors and the settlement of the handshake, each track is stopped
  \<open>N\<close> times and each node disconnected \<open>N\<close> times; once the handshake is done the
  session has been closed \<open>N\<close> times; while it is pending no close has been made and
  \<open>N\<close> closes wait for it; the audio context is closed at most \<open>N\<close> times and, if
  \<open>N \<ge> 1\<close>, at least once. A remote close or a transport error executes no release
  step. Each step runs exactly once for \<open>N = 1\<close>.
\<close>

theorem stop_runs_every_time:
  "(\<forall>x \<in> release_steps n.
      count_list (trace (live_run evs (session_start m n))) x = count_list evs StopFn) \<and>
   (sessionPromise (live_run evs (session_start m n)) = Fulfilled \<longrightarrow>
      count_list (trace (live_run evs (session_start m n))) SessionClose = count_list evs StopFn) \<and>
   (sessionPromise (live_run evs (session_start m n)) = Pending \<longrightarrow>
      count_list (trace (live_run evs (session_start m n))) SessionClose = 0 \<and>
      count_list (thens (live_run evs (session_start m n))) CloseSession = count_list evs StopFn) \<and>
   count_list (trace (live_run evs (session_start m n))) ContextClose \<le> count_list evs StopFn \<and>
   (StopFn \<in> set evs \<longrightarrow>
      0 < count_list (trace (live_run evs (session_start m n))) ContextClose)"
proof -
  let ?s = "session_start m n" and ?r = "live_run evs (session_start m n)"
  have rel: "\<forall>x \<in> release_steps n. count_list (trace ?r) x = count_list evs StopFn"
  proof
    fix x assume "x \<in> release_steps n"
    then have "x \<in> release_steps (tracks ?s)" by (simp add: session_start_def)
    from live_run_release [OF this, of evs] show "count_list (trace ?r) x = count_list evs StopFn"
      by (simp add: session_start_def)
  qed
  have w: "promise_wf ?s" and c0: "closes ?s = 0"
    by (simp_all add: promise_wf_def closes_def session_start_def)
  have ful: "count_list (trace ?r) SessionClose = count_list evs StopFn"
    if "sessionPromise ?r = Fulfilled"
  proof -
    from that have "sessionPromise ?r \<noteq> Rejected" by simp
    from live_run_closes [OF w this] that c0 show ?thesis
      by (auto simp: promise_wf_def closes_def)
  qed
  have pen: "count_list (trace ?r) SessionClose = 0 \<and>
             count_list (thens ?r) CloseSession = count_list evs StopFn"
    if "sessionPromise ?r = Pending"
  proof -
    from that have "sessionPromise ?r \<noteq> Rejected" by simp
    from live_run_closes [OF w this] that c0 show ?thesis
      by (auto simp: promise_wf_def closes_def count_list_0_iff)
  qed
  have "context_wf ?s" by (simp add: context_wf_def session_start_def)
  from live_run_context [OF this, of evs]
  have ctx: "count_list (trace ?r) ContextClose \<le> count_list evs StopFn"
    and ctx1: "StopFn \<in> set evs \<longrightarrow> 0 < count_list (trace ?r) ContextClose"
    by (simp_all add: session_start_def)
  from rel ful pen ctx ctx1 show ?thesis by blast
qed

text \<open>
  Against claim C2 as stated: two calls of the stop function, one during the handshake
  and one after it, close the session twice and stop the track twice.
\<close>

theorem stop_twice_counterexample:
  "count_list (trace (live_run [StopFn, HandshakeResolved, StopFn] (session_start Avatar 1)))
     SessionClose = 2 \<and>
   count_list (trace (live_run [StopFn, HandshakeResolved, StopFn] (session_start Avatar 1)))
     (TrackStop 0) = 2"
  by (simp add: session_start_def stop_def promise_then_def resolve_def emit_def Let_def)

text \<open>
  One call of the stop function during the handshake, with a remote close and a transport
  error around the fulfilment: every release step has run once.
\<close>

theorem stop_runs_every_time_witness:
  "SourceDisconnect \<in> release_steps 1 \<and> TrackStop 0 \<in> release_steps 1 \<and>
   sessionPromise (live_run [StopFn, RemoteClose, HandshakeResolved, TransportError]
     (session_start Avatar 1)) = Fulfilled \<and>
   count_list (trace (live_run [StopFn, RemoteClose, HandshakeResolved, TransportError]
     (session_start Avatar 1))) SourceDisconnect = 1 \<and>
   count_list (trace (live_run [StopFn, RemoteClose, HandshakeResolved, TransportError]
     (session_start Avatar 1))) (TrackStop 0) = 1 \<and>
   count_list (trace (live_run [StopFn, RemoteClose, HandshakeResolved, TransportError]
     (session_start Avatar 1))) SessionClose = 1 \<and>
   count_list (trace (live_run [StopFn, RemoteClose, HandshakeResolved, TransportError]
     (session_start Avatar 1))) ContextClose = 1"
  using stop_runs_every_time [of 1 "[StopFn, RemoteClose, HandshakeResolved, TransportError]" Avatar]
  by (simp add: release_steps_def session_start_def stop_def promise_then_def resolve_def
        emit_def Let_def onclose_def onerror_def)

subsection \<open>What dictation mode delivers\<close>

lemma inbound_append: "inbound (xs @ ys) = inbound xs @ inbound ys"
  by (induction xs rule: inbound.induct) simp_all

lemma inbound_TrackStop: "inbound (map TrackStop ns) = []"
  by (induction ns) simp_all

lemma inbound_then_effects: "inbound (then_effects cl ks) = []"
  by (induction cl ks rule: then_effects.induct) (auto simp: inbound_append)

lemma inbound_audio: "OnAudioData d \<in> set es \<Longrightarrow> OnAudioData d \<in> set (inbound es)"
  by (induction es rule: inbound.induct) auto

lemma live_step_dictation:
  "mode s = Dictation \<Longrightarrow>
     inbound (trace (live_step e s)) =
     inbound (trace s) @ map OnTranscription (transcribed [e])"
  by (cases e)
    (simp_all add: handler_eqs inbound_append inbound_TrackStop inbound_then_effects
       split: promise_state.splits)

lemma transcribed_Cons: "transcribed (e # es) = transcribed [e] @ transcribed es"
  by (cases e) simp_all

lemma live_run_dictation:
  "mode s = Dictation \<Longrightarrow>
     inbound (trace (live_run evs s)) =
     inbound (trace s) @ map OnTranscription (transcribed evs)"
proof (induction evs arbitrary: s)
  case Nil
  show ?case by simp
next
  case (Cons e evs)
  from Cons.prems have "mode (live_step e s) = Dictation" by (simp add: live_step_mode)
  from Cons.IH [OF this] live_step_dictation [OF Cons.prems, of e]
  show ?case by (simp add: transcribed_Cons [of e evs])
qed

text \<open>
  Claim C8. In dictation mode the inbound events handed to the caller are exactly the
  transcription texts of the messages that carry one (defined and not empty), in the order
  of the messages; no audio data is ever handed to the caller.
\<close>

theorem dictation_delivers_text_only:
  "inbound (trace (live_run evs (session_start Dictation n))) =
     map OnTranscription (transcribed evs) \<and>
   OnAudioData d \<notin> set (trace (live_run evs (session_start Dictation n)))"
proof -
  let ?r = "live_run evs (session_start Dictation n)"
  have "mode (session_start Dictation n) = Dictation" by (simp add: session_start_def)
  from live_run_dictation [OF this, of evs]
  have a: "inbound (trace ?r) = map OnTranscription (transcribed evs)"
    by (simp add: session_start_def)
  have "OnAudioData d \<notin> set (inbound (trace ?r))" unfolding a by auto
  with inbound_audio [of d "trace ?r"] a show ?thesis by blast
qed

text \<open>
  A message with audio only, a transcription, an empty transcription, the stop function,
  another transcription.
\<close>

theorem dictation_delivers_text_only_witness:
  "inbound (trace (live_run
      [ServerMessage (audio_message ''AAAA''), ServerMessage (text_message ''hola''),
       ServerMessage (text_message ''''), StopFn, ServerMessage (text_message ''doctor'')]
      (session_start Dictation 1))) = [OnTranscription ''hola'', OnTranscription ''doctor'']"
  using dictation_delivers_text_only [of
      "[ServerMessage (audio_message ''AAAA''), ServerMessage (text_message ''hola''),
        ServerMessage (text_message ''''), StopFn, ServerMessage (text_message ''doctor'')]" 1 "''AAAA''"]
  by (simp add: audio_message_def text_message_def message_text_def truthy_def)

subsection \<open>A refused microphone\<close>

text \<open>
  Claim C7. When the microphone is refused or missing, the set-up of the avatar session
  fails with the permission error, and in no execution is the caller's \<^verbatim>\<open>onOpen\<close> invoked:
  the handshake that would call it is never started.
\<close>

theorem permission_denied_no_open:
  "mic = Denied \<or> mic = NoDevice \<Longrightarrow>
     execution (connectLiveTriageSession mic) evs = Inl PermissionError \<and>
     OnOpen \<notin> set (effects_of (execution (connectLiveTriageSession mic) evs))"
  by (auto simp: execution_def connectLiveTriageSession_def effects_of_def)

text \<open>The same events with the microphone refused and with it granted.\<close>

theorem permission_denied_no_open_witness:
  "execution (connectLiveTriageSession Denied) [ServerOpen, ServerOpen] = Inl PermissionError \<and>
   OnOpen \<notin> set (effects_of (execution (connectLiveTriageSession Denied) [ServerOpen, ServerOpen])) \<and>
   OnOpen \<in> set (effects_of (execution (connectLiveTriageSession (Granted 1)) [ServerOpen, ServerOpen]))"
  using permission_denied_no_open [of Denied "[ServerOpen, ServerOpen]"]
  by (simp add: execution_def connectLiveTriageSession_def effects_of_def session_start_def
        onopen_def emit_def)

section \<open>Properties of the sample codec\<close>

subsection \<open>Base64\<close>

lemma index_of_nth:
  "distinct xs \<Longrightarrow> n < length xs \<Longrightarrow> index_of (xs ! n) xs = Some n"
proof (induction xs arbitrary: n)
  case Nil
  then show ?case by simp
next
  case (Cons y ys)
  show ?case
  proof (cases n)
    case 0
    then show ?thesis by simp
  next
    case (Suc k)
    with Cons.prems have "k < length ys" and "distinct ys" and "ys ! k \<noteq> y"
      by auto
    with Cons.IH [of k] Suc show ?thesis by simp
  qed
qed

lemma index_of_None: "x \<notin> set xs \<Longrightarrow> index_of x xs = None"
  by (induction xs) auto

lemma b64_alphabet_length: "length b64_alphabet = 64"
  by (simp add: b64_alphabet_def)

lemma b64_alphabet_distinct: "distinct b64_alphabet"
  by (simp add: b64_alphabet_def)

lemma b64_pad_not_in: "CHR ''='' \<notin> set b64_alphabet"
  by (simp add: b64_alphabet_def)

lemma b64_value_char: "b64_value (b64_char n) = Some (n mod 64)"
  unfolding b64_value_def b64_char_def
  by (rule index_of_nth [OF b64_alphabet_distinct]) (simp add: b64_alphabet_length)

lemma b64_char_not_pad: "b64_char n \<noteq> CHR ''=''"
proof -
  have "b64_char n \<in> set b64_alphabet"
    unfolding b64_char_def by (rule nth_mem) (simp add: b64_alphabet_length)
  with b64_pad_not_in show ?thesis by auto
qed


lemma byte_lt: "unat (a :: byte) < 256"
  using unsigned_less [of a, where ?'a = nat] by simp

lemma b64_value_char_lt: "n < 64 \<Longrightarrow> b64_value (b64_char n) = Some n"
  by (simp add: b64_value_char)

lemma sextets:
  fixes x y z :: nat
  assumes "x < 256" "y < 256" "z < 256"
  shows "x div 4 < 64" "(x mod 4) * 16 + y div 16 < 64" "(y mod 16) * 4 + z div 64 < 64"
    "z mod 64 < 64" "(x mod 4) * 16 < 64" "(y mod 16) * 4 < 64"
  using assms by simp_all

lemma octets:
  fixes x y z :: nat
  assumes "x < 256" "y < 256" "z < 256"
  shows "x div 4 * 4 + ((x mod 4) * 16 + y div 16) div 16 = x"
    and "(((x mod 4) * 16 + y div 16) mod 16) * 16 + ((y mod 16) * 4 + z div 64) div 4 = y"
    and "(((y mod 16) * 4 + z div 64) mod 4) * 64 + z mod 64 = z"
    and "x div 4 * 4 + ((x mod 4) * 16) div 16 = x"
    and "(((x mod 4) * 16 + y div 16) mod 16) * 16 + ((y mod 16) * 4) div 4 = y"
  using assms by simp_all

lemma byte_of_unat: "n = unat (a :: byte) \<Longrightarrow> of_nat n = a"
  by simp

lemma b64_decode_group3:
  assumes "b64_value c1 = Some s1" "b64_value c2 = Some s2" "b64_value c3 = Some s3"
    "b64_value c4 = Some s4" "c3 \<noteq> CHR ''=''" "c4 \<noteq> CHR ''=''"
  shows "b64_decode (c1 # c2 # c3 # c4 # rest) =
         map_option (\<lambda>bs. of_nat (s1 * 4 + s2 div 16) # of_nat ((s2 mod 16) * 16 + s3 div 4) #
                          of_nat ((s3 mod 4) * 64 + s4) # bs) (b64_decode rest)"
  using assms by simp

lemma b64_decode_group2:
  assumes "b64_value c1 = Some s1" "b64_value c2 = Some s2" "b64_value c3 = Some s3"
    "c3 \<noteq> CHR ''=''"
  shows "b64_decode [c1, c2, c3, CHR ''=''] =
         Some [of_nat (s1 * 4 + s2 div 16), of_nat ((s2 mod 16) * 16 + s3 div 4)]"
  using assms by simp

lemma b64_decode_group1:
  assumes "b64_value c1 = Some s1" "b64_value c2 = Some s2"
  shows "b64_decode [c1, c2, CHR ''='', CHR ''=''] = Some [of_nat (s1 * 4 + s2 div 16)]"
  using assms by simp

lemma b64_roundtrip: "b64_decode (b64_encode bs) = Some bs"
proof (induction bs rule: b64_encode.induct)
  case 1
  show ?case by simp
next
  case (2 a)
  define p q where "p = unat a div 4" and "q = (unat a mod 4) * 16"
  note s = sextets [OF byte_lt [of a] byte_lt [of a] byte_lt [of a]]
  have e: "b64_encode [a] = [b64_char p, b64_char q, CHR ''='', CHR ''='']"
    by (simp add: Let_def p_def q_def)
  have v: "b64_value (b64_char p) = Some p" "b64_value (b64_char q) = Some q"
    unfolding p_def q_def by (rule b64_value_char_lt, rule s)+
  have "p * 4 + q div 16 = unat a"
    unfolding p_def q_def by (rule octets(4) [OF byte_lt byte_lt byte_lt])
  then have "(of_nat (p * 4 + q div 16) :: byte) = a" by (rule byte_of_unat)
  then show ?case
    unfolding e b64_decode_group1 [OF v] by simp
next
  case (3 a b)
  define p q r where "p = unat a div 4" and "q = (unat a mod 4) * 16 + unat b div 16"
    and "r = (unat b mod 16) * 4"
  note s = sextets [OF byte_lt [of a] byte_lt [of b] byte_lt [of b]]
  have e: "b64_encode [a, b] = [b64_char p, b64_char q, b64_char r, CHR ''='']"
    by (simp add: Let_def p_def q_def r_def)
  have v: "b64_value (b64_char p) = Some p" "b64_value (b64_char q) = Some q"
    "b64_value (b64_char r) = Some r"
    unfolding p_def q_def r_def by (rule b64_value_char_lt, rule s)+
  have "p * 4 + q div 16 = unat a" "(q mod 16) * 16 + r div 4 = unat b"
    unfolding p_def q_def r_def
    by (rule octets(1) [OF byte_lt byte_lt byte_lt], rule octets(5) [OF byte_lt byte_lt byte_lt])
  then have "(of_nat (p * 4 + q div 16) :: byte) = a"
    "(of_nat ((q mod 16) * 16 + r div 4) :: byte) = b"
    by (simp_all only: byte_of_unat)
  then show ?case
    unfolding e b64_decode_group2 [OF v b64_char_not_pad] by simp
next
  case (4 a b c rest)
  define p q r t where "p = unat a div 4" and "q = (unat a mod 4) * 16 + unat b div 16"
    and "r = (unat b mod 16) * 4 + unat c div 64" and "t = unat c mod 64"
  note s = sextets [OF byte_lt [of a] byte_lt [of b] byte_lt [of c]]
  have e: "b64_encode (a # b # c # rest) =
           b64_char p # b64_char q # b64_char r # b64_char t # b64_encode rest"
    by (simp add: Let_def p_def q_def r_def t_def)
  have v: "b64_value (b64_char p) = Some p" "b64_value (b64_char q) = Some q"
    "b64_value (b64_char r) = Some r" "b64_value (b64_char t) = Some t"
    unfolding p_def q_def r_def t_def by (rule b64_value_char_lt, rule s)+
  have "p * 4 + q div 16 = unat a" "(q mod 16) * 16 + r div 4 = unat b"
    "(r mod 4) * 64 + t = unat c"
    unfolding p_def q_def r_def t_def
    by (rule octets(1) [OF byte_lt byte_lt byte_lt], rule octets(2) [OF byte_lt byte_lt byte_lt],
        rule octets(3) [OF byte_lt byte_lt byte_lt])
  then have "(of_nat (p * 4 + q div 16) :: byte) = a"
    "(of_nat ((q mod 16) * 16 + r div 4) :: byte) = b"
    "(of_nat ((r mod 4) * 64 + t) :: byte) = c"
    by (simp_all only: byte_of_unat)
  with "4.IH" show ?case
    unfolding e b64_decode_group3 [OF v b64_char_not_pad b64_char_not_pad] by simp
qed

subsection \<open>Quantization\<close>

lemma int16_roundtrip:
  assumes "- 32768 \<le> q" "q \<le> 32767"
  shows "int16_of (word_of_int q) (word_of_int (q div 256)) = q"
proof -
  have lo: "uint (word_of_int q :: byte) = q mod 256"
    by (simp add: uint_word_of_int)
  have hi: "uint (word_of_int (q div 256) :: byte) = (q div 256) mod 256"
    by (simp add: uint_word_of_int)
  show ?thesis
  proof (cases "0 \<le> q")
    case True
    with assms have "(q div 256) mod 256 = q div 256" by simp
    with True assms show ?thesis
      unfolding int16_of_def lo hi by (simp add: Let_def)
  next
    case False
    with assms have d: "- 128 \<le> q div 256" "q div 256 < 0" by simp_all
    define h where "h = q div 256"
    have "(h + 256) mod 256 = h + 256"
      using d unfolding h_def [symmetric] by (intro mod_pos_pos_trivial) linarith+
    moreover have "(h + 256) mod 256 = h mod 256" by simp
    ultimately have "(q div 256) mod 256 = q div 256 + 256"
      unfolding h_def by simp
    with False assms show ?thesis
      unfolding int16_of_def lo hi by (simp add: Let_def)
  qed
qed

lemma to_integer_close: "\<bar>real_of_int (to_integer r x) - x\<bar> < 1"
proof (cases r)
  case Truncate
  then show ?thesis by (simp; linarith)
next
  case Floor
  then show ?thesis by (simp; linarith)
next
  case Nearest
  have "\<bar>real_of_int (round x) - x\<bar> \<le> 1 / 2" by (rule of_int_round_abs_le)
  with Nearest show ?thesis by simp
qed

lemma to_integer_bounds:
  assumes "real_of_int lo \<le> x" "x \<le> real_of_int hi"
  shows "lo \<le> to_integer r x \<and> to_integer r x \<le> hi"
proof -
  have c: "\<bar>real_of_int (to_integer r x) - x\<bar> < 1" by (rule to_integer_close)
  from c assms have "real_of_int lo - 1 < real_of_int (to_integer r x)" by linarith
  then have a: "lo - 1 < to_integer r x" by linarith
  from c assms have "real_of_int (to_integer r x) < real_of_int hi + 1" by linarith
  then have b: "to_integer r x < hi + 1" by linarith
  from a b show ?thesis by simp
qed

lemma quantize_range: "- 32768 \<le> quantize r s \<and> quantize r s \<le> 32767"
  by (simp add: quantize_def)

lemma quantize_close:
  assumes "- 1 \<le> s" "s \<le> 1"
  shows "\<bar>real_of_int (quantize r s) / 32768 - s\<bar> \<le> 1 / 32768"
proof -
  define x where "x = s * 32768"
  define t where "t = to_integer r x"
  have cl: "clamp s = s" using assms by (simp add: clamp_def)
  have xr: "real_of_int (- 32768) \<le> x" "x \<le> real_of_int 32768"
    using assms by (simp_all add: x_def)
  from to_integer_bounds [OF xr, of r] have tr: "- 32768 \<le> t" "t \<le> 32768"
    by (simp_all add: t_def)
  have tc: "\<bar>real_of_int t - x\<bar> < 1" unfolding t_def by (rule to_integer_close)
  have q: "quantize r s = min 32767 t"
    using tr by (simp add: quantize_def cl x_def t_def)
  have "\<bar>real_of_int (quantize r s) - x\<bar> \<le> 1"
  proof (cases "t \<le> 32767")
    case True
    with q tc show ?thesis by simp
  next
    case False
    with tr have "t = 32768" by simp
    with q tc xr show ?thesis by simp
  qed
  then have "\<bar>real_of_int (quantize r s) - x\<bar> / 32768 \<le> 1 / 32768"
    by (rule divide_right_mono) simp
  moreover have "real_of_int (quantize r s) / 32768 - s = (real_of_int (quantize r s) - x) / 32768"
    by (simp add: x_def diff_divide_distrib)
  then have "\<bar>real_of_int (quantize r s) / 32768 - s\<bar> =
             \<bar>real_of_int (quantize r s) - x\<bar> / 32768"
    by (simp only: abs_divide abs_numeral)
  ultimately show ?thesis by simp
qed

lemma length_encode_frame: "length (encode_frame r frame) = 2 * length frame"
  by (induction frame) (simp_all add: encode_frame_def int16_bytes_def)

lemma int16_samples_encode_frame:
  "int16_samples (encode_frame r frame) = map (quantize r) frame"
proof (induction frame)
  case Nil
  show ?case by (simp add: encode_frame_def)
next
  case (Cons s frame)
  have "encode_frame r (s # frame) =
        word_of_int (quantize r s) # word_of_int (quantize r s div 256) # encode_frame r frame"
    by (simp add: encode_frame_def int16_bytes_def)
  with Cons int16_roundtrip [of "quantize r s"] quantize_range [of r s]
  show ?case by simp
qed

text \<open>
  Claim C4. The encoder is a total function of the frame. Decoding what it produced
  succeeds and yields as many samples as the frame has, and every sample of the frame that
  lies in \<open>[-1, 1]\<close> comes back within \<open>1 / 32768\<close> of itself, whichever way the encoder
  makes integers.
\<close>

theorem encode_decode_round_trip:
  "\<exists>audioData buf.
     base64ToUint8Array (pcm_data (createPcmBlob r frame)) = Inr audioData \<and>
     decodeAudioData audioData rate 1 = Inr buf \<and>
     length (samples buf) = length frame \<and>
     (\<forall>i < length frame. - 1 \<le> frame ! i \<and> frame ! i \<le> 1 \<longrightarrow>
        \<bar>samples buf ! i - frame ! i\<bar> \<le> 1 / 32768)"
proof -
  let ?bytes = "encode_frame r frame"
  let ?buf = "\<lparr>samples = map (\<lambda>q. real_of_int q / 32768) (int16_samples ?bytes),
               numberOfChannels = 1, sampleRate = rate\<rparr>"
  have a: "base64ToUint8Array (pcm_data (createPcmBlob r frame)) = Inr ?bytes"
    by (simp add: base64ToUint8Array_def createPcmBlob_def b64_roundtrip)
  have b: "decodeAudioData ?bytes rate 1 = Inr ?buf"
    by (simp add: decodeAudioData_def length_encode_frame)
  have c: "samples ?buf = map (\<lambda>s. real_of_int (quantize r s) / 32768) frame"
    by (simp add: int16_samples_encode_frame comp_def)
  have d: "length (samples ?buf) = length frame" unfolding c by simp
  have e: "\<forall>i < length frame. - 1 \<le> frame ! i \<and> frame ! i \<le> 1 \<longrightarrow>
             \<bar>samples ?buf ! i - frame ! i\<bar> \<le> 1 / 32768"
    unfolding c using quantize_close by simp
  from a b d e show ?thesis by blast
qed

text \<open>A frame holding both ends of the range.\<close>

theorem encode_decode_round_trip_witness:
  "\<exists>audioData buf.
     base64ToUint8Array (pcm_data (createPcmBlob Truncate [1, - 1, 1 / 2])) = Inr audioData \<and>
     decodeAudioData audioData 24000 1 = Inr buf \<and>
     length (samples buf) = 3 \<and>
     \<bar>samples buf ! 0 - 1\<bar> \<le> 1 / 32768 \<and>
     \<bar>samples buf ! 1 - (- 1)\<bar> \<le> 1 / 32768 \<and>
     \<bar>samples buf ! 2 - 1 / 2\<bar> \<le> 1 / 32768"
proof -
  from encode_decode_round_trip [of Truncate "[1, - 1, 1 / 2]" 24000]
  obtain audioData buf where
    a: "base64ToUint8Array (pcm_data (createPcmBlob Truncate [1, - 1, 1 / 2])) = Inr audioData"
    and b: "decodeAudioData audioData 24000 1 = Inr buf"
    and c: "length (samples buf) = length [1, - 1, 1 / 2 :: real]"
    and d: "\<forall>i < length [1, - 1, 1 / 2 :: real].
              - 1 \<le> [1, - 1, 1 / 2 :: real] ! i \<and> [1, - 1, 1 / 2 :: real] ! i \<le> 1 \<longrightarrow>
              \<bar>samples buf ! i - [1, - 1, 1 / 2 :: real] ! i\<bar> \<le> 1 / 32768"
    by blast
  from d [rule_format, of 0] d [rule_format, of 1] d [rule_format, of 2]
  have "\<bar>samples buf ! 0 - 1\<bar> \<le> 1 / 32768" "\<bar>samples buf ! 1 - (- 1)\<bar> \<le> 1 / 32768"
    "\<bar>samples buf ! 2 - 1 / 2\<bar> \<le> 1 / 32768"
    by simp_all
  with a b c show ?thesis by auto
qed

section \<open>Properties of the avatar modal\<close>

subsection \<open>The playback schedule\<close>

lemma duration_nonneg: "0 \<le> duration b"
  by (simp add: duration_def)

lemma schedule_eq:
  "schedule t b st =
     st\<lparr>started := started st @ [(max t (nextStartTime st), duration b)],
        nextStartTime := max t (nextStartTime st) + duration b\<rparr>"
  by (simp add: schedule_def Let_def max_def)

lemma onAudioData_eq:
  "onAudioData U t c st =
     (if cleanup st then st
      else if \<not> audioContextRef st then st\<lparr>isTalking := True\<rparr>
      else case decode_chunk U c of
             Inl e \<Rightarrow> st\<lparr>isTalking := True, rejections := rejections st @ [e]\<rparr>
           | Inr b \<Rightarrow>
               st\<lparr>isTalking := True,
                   started := started st @ [(max t (nextStartTime st), duration b)],
                   nextStartTime := max t (nextStartTime st) + duration b\<rparr>)"
  by (simp add: onAudioData_def decode_chunk_def schedule_eq Let_def split: sum.splits)

lemmas modal_eqs = onAudioData_eq onended_def onOpen_def onClose_def unmount_def Let_def

lemma modal_run_append: "modal_run U (xs @ ys) st = modal_run U ys (modal_run U xs st)"
  by (induction xs arbitrary: st) simp_all

lemma horizon_snoc: "horizon cursor (sched @ [p]) = fst p + snd p"
  by (cases sched) (simp_all add: horizon_def)

lemma no_overlap_snoc:
  "no_overlap sched \<Longrightarrow> horizon cursor sched \<le> s \<Longrightarrow> no_overlap (sched @ [(s, d)])"
proof (induction sched rule: no_overlap.induct)
  case 1
  show ?case by simp
next
  case (2 p)
  then show ?case by (simp add: horizon_def)
next
  case (3 p q rest)
  then show ?case by (simp add: horizon_def)
qed

lemma sorted_starts_snoc:
  assumes "sorted (map fst sched)" "no_overlap sched" "\<forall>p \<in> set sched. 0 \<le> snd p"
    "horizon cursor sched \<le> s"
  shows "sorted (map fst (sched @ [(s, d)]))"
proof -
  have "\<forall>p \<in> set sched. fst p \<le> s"
  proof (cases sched rule: rev_cases)
    case Nil
    then show ?thesis by simp
  next
    case (snoc ys y)
    with assms(4) have l: "fst y + snd y \<le> s" by (simp add: horizon_snoc)
    from snoc assms(3) have "0 \<le> snd y" by simp
    with l have ys: "fst y \<le> s" by simp
    from assms(1) snoc have "\<forall>p \<in> set ys. fst p \<le> fst y"
      by (simp add: sorted_append)
    with ys snoc show ?thesis by auto
  qed
  with assms(1) show ?thesis by (simp add: sorted_append)
qed

lemma modal_step_inv:
  assumes "schedule_inv cursor st"
  shows "schedule_inv cursor (modal_step U e st)"
proof (cases e)
  case (AudioArrived t c)
  show ?thesis
  proof (cases "cleanup st \<or> (\<exists>err. decode_chunk U c = Inl err)")
    case True
    with assms AudioArrived show ?thesis
      by (auto simp: schedule_inv_def onAudioData_eq)
  next
    case False
    then obtain b where b: "decode_chunk U c = Inr b" and nc: "\<not> cleanup st"
      by (cases "decode_chunk U c") auto
    let ?s = "max t (nextStartTime st)"
    have h: "horizon cursor (started st) \<le> ?s" using assms by (simp add: schedule_inv_def)
    have st': "modal_step U e st =
               st\<lparr>isTalking := True, started := started st @ [(?s, duration b)],
                   nextStartTime := ?s + duration b\<rparr>"
      using assms b nc AudioArrived by (simp add: onAudioData_eq schedule_inv_def)
    have "no_overlap (started st @ [(?s, duration b)])"
      using assms h by (intro no_overlap_snoc [of _ cursor]) (simp_all add: schedule_inv_def)
    moreover have "sorted (map fst (started st @ [(?s, duration b)]))"
      using assms h by (intro sorted_starts_snoc [of _ cursor]) (simp_all add: schedule_inv_def)
    ultimately show ?thesis
      using assms unfolding st' by (simp add: schedule_inv_def horizon_snoc duration_nonneg)
  qed
qed (use assms in \<open>simp_all add: schedule_inv_def modal_eqs\<close>)

lemma modal_run_inv:
  "schedule_inv cursor st \<Longrightarrow> schedule_inv cursor (modal_run U evs st)"
  by (induction evs arbitrary: st) (simp_all add: modal_step_inv)

lemma modal_start_inv: "schedule_inv cursor (modal_start cursor talking stopRef)"
  by (simp add: schedule_inv_def modal_start_def horizon_def)

text \<open>
  Claim C1. Let \<open>st\<close> be the state of the modal after any events, with any clock values,
  and let one more chunk arrive at clock time \<open>t\<close>. A chunk that decodes (the effect not yet
  cleaned up) is started at the maximum of \<open>t\<close> and the cursor, and the cursor is then that
  start plus the duration of the buffer. The start is not before \<open>t\<close> and not before the
  horizon of the schedule so far (the start of the previous buffer plus its duration), and
  it is that horizon when the clock has not passed the cursor. A chunk that does not
  decode, or that arrives after the clean-up, changes neither the schedule nor the cursor.
  The whole schedule has no overlap and non-decreasing start times, and the cursor is its
  horizon.
\<close>

theorem playback_schedule:
  assumes "st = modal_run U evs (modal_start cursor talking stopRef)"
    and "st' = onAudioData U t c st"
  shows "no_overlap (started st') \<and> sorted (map fst (started st')) \<and>
         nextStartTime st = horizon cursor (started st) \<and>
         nextStartTime st' = horizon cursor (started st') \<and>
         (\<forall>buffer. \<not> cleanup st \<and> decode_chunk U c = Inr buffer \<longrightarrow>
            started st' = started st @ [(max t (nextStartTime st), duration buffer)] \<and>
            nextStartTime st' = max t (nextStartTime st) + duration buffer \<and>
            t \<le> max t (nextStartTime st) \<and>
            horizon cursor (started st) \<le> max t (nextStartTime st) \<and>
            (t \<le> nextStartTime st \<longrightarrow>
               max t (nextStartTime st) = horizon cursor (started st))) \<and>
         (cleanup st \<or> (\<exists>e. decode_chunk U c = Inl e) \<longrightarrow>
            started st' = started st \<and> nextStartTime st' = nextStartTime st)"
proof -
  have i: "schedule_inv cursor st"
    unfolding assms(1) by (rule modal_run_inv [OF modal_start_inv])
  have i': "schedule_inv cursor st'"
    using modal_step_inv [OF i, of U "AudioArrived t c"] by (simp add: assms(2))
  have a: "audioContextRef st" and h: "nextStartTime st = horizon cursor (started st)"
    using i by (simp_all add: schedule_inv_def)
  have sched: "started st' = started st @ [(max t (nextStartTime st), duration buffer)] \<and>
            nextStartTime st' = max t (nextStartTime st) + duration buffer \<and>
            t \<le> max t (nextStartTime st) \<and>
            horizon cursor (started st) \<le> max t (nextStartTime st) \<and>
            (t \<le> nextStartTime st \<longrightarrow>
               max t (nextStartTime st) = horizon cursor (started st))"
    if "\<not> cleanup st \<and> decode_chunk U c = Inr buffer" for buffer
    using that a h by (simp add: assms(2) onAudioData_eq)
  have skip: "started st' = started st \<and> nextStartTime st' = nextStartTime st"
    if "cleanup st \<or> (\<exists>e. decode_chunk U c = Inl e)"
    using that a by (auto simp: assms(2) onAudioData_eq)
  from i i' sched skip show ?thesis
    unfolding schedule_inv_def by blast
qed

text \<open>
  Two chunks of two samples each: the second arrives while the first still plays and
  starts when the first ends; or it arrives after a silence and starts at the clock.
\<close>

theorem playback_schedule_witness:
  "started (onAudioData audioUtils (1 / 24000) ''AAAAAA==''
      (modal_run audioUtils [AudioArrived 0 ''AAAAAA==''] first_mount)) =
     [(0, 1 / 12000), (1 / 12000, 1 / 12000)] \<and>
   started (onAudioData audioUtils 5 ''AAAAAA==''
      (modal_run audioUtils [AudioArrived 0 ''AAAAAA==''] first_mount)) =
     [(0, 1 / 12000), (5, 1 / 12000)]"
  using playback_schedule [where U = audioUtils and evs = "[AudioArrived 0 ''AAAAAA=='']"
        and cursor = 0 and talking = False and stopRef = False and t = "1 / 24000"
        and c = "''AAAAAA==''", OF refl refl]
    playback_schedule [where U = audioUtils and evs = "[AudioArrived 0 ''AAAAAA=='']"
        and cursor = 0 and talking = False and stopRef = False and t = 5
        and c = "''AAAAAA==''", OF refl refl]
  by (simp add: first_mount_def modal_start_def onAudioData_def audioUtils_def base64ToUint8Array_def
        b64_value_def b64_alphabet_def decodeAudioData_def schedule_def duration_def Let_def)

subsection \<open>Malformed chunks\<close>

lemma modal_step_same_schedule:
  assumes "same_schedule pre a b"
  shows "same_schedule pre (modal_step U e a) (modal_step U e b)"
proof (cases e)
  case (AudioArrived t c)
  with assms show ?thesis
    by (cases "decode_chunk U c") (auto simp: same_schedule_def onAudioData_eq)
qed (use assms in \<open>auto simp: same_schedule_def modal_eqs\<close>)

lemma modal_run_same_schedule:
  "same_schedule pre a b \<Longrightarrow> same_schedule pre (modal_run U evs a) (modal_run U evs b)"
  by (induction evs arbitrary: a b) (simp_all add: modal_step_same_schedule)

lemma decode_odd:
  "odd (length audioData) \<Longrightarrow> decodeAudioData audioData rate n = Inl DecodeError"
  by (simp add: decodeAudioData_def odd_iff_mod_2_eq_one)

text \<open>
  Claim C6. Let a chunk arrive whose bytes are odd in number, before the clean-up. The
  decoder fails with the decode error, and the callback is rejected with it, once. Nothing
  is scheduled for the chunk, the cursor stays, and the session is left alone: the status,
  the clean-up flag and the calls of the stop function are what they were. Whatever events
  follow, the schedule, the cursor, the status and the calls of the stop function after
  them are what they would be had the chunk never arrived, and the rejections logged after
  it are the same.
\<close>

theorem malformed_chunk_dropped:
  assumes "base64ToUint8Array c = Inr audioData" and "odd (length audioData)"
    and "\<not> cleanup st" and "audioContextRef st"
  shows "decodeAudioData audioData 24000 1 = Inl DecodeError \<and>
         rejections (onAudioData audioUtils t c st) = rejections st @ [DecodeError] \<and>
         started (onAudioData audioUtils t c st) = started st \<and>
         nextStartTime (onAudioData audioUtils t c st) = nextStartTime st \<and>
         status (onAudioData audioUtils t c st) = status st \<and>
         cleanup (onAudioData audioUtils t c st) = cleanup st \<and>
         stopCalls (onAudioData audioUtils t c st) = stopCalls st \<and>
         started (modal_run audioUtils evs (onAudioData audioUtils t c st)) =
           started (modal_run audioUtils evs st) \<and>
         nextStartTime (modal_run audioUtils evs (onAudioData audioUtils t c st)) =
           nextStartTime (modal_run audioUtils evs st) \<and>
         status (modal_run audioUtils evs (onAudioData audioUtils t c st)) =
           status (modal_run audioUtils evs st) \<and>
         stopCalls (modal_run audioUtils evs (onAudioData audioUtils t c st)) =
           stopCalls (modal_run audioUtils evs st) \<and>
         (\<exists>x. rejections (modal_run audioUtils evs st) = rejections st @ x \<and>
              rejections (modal_run audioUtils evs (onAudioData audioUtils t c st)) =
                rejections st @ DecodeError # x)"
proof -
  have d: "decodeAudioData audioData 24000 1 = Inl DecodeError"
    using assms(2) by (rule decode_odd)
  with assms(1) have dc: "decode_chunk audioUtils c = Inl DecodeError"
    by (simp add: decode_chunk_def audioUtils_def)
  have eq: "onAudioData audioUtils t c st =
            st\<lparr>isTalking := True, rejections := rejections st @ [DecodeError]\<rparr>"
    using assms(3,4) dc by (simp add: onAudioData_eq)
  have "same_schedule (rejections st) st (onAudioData audioUtils t c st)"
    unfolding eq by (simp add: same_schedule_def)
  from modal_run_same_schedule [OF this, of audioUtils evs] d show ?thesis
    unfolding same_schedule_def by (simp add: eq)
qed

text \<open>A chunk of three bytes, then a chunk of two samples that is scheduled at the clock.\<close>

theorem malformed_chunk_dropped_witness:
  "base64ToUint8Array ''AAAA'' = Inr [0, 0, 0] \<and> odd (length [0 :: byte, 0, 0]) \<and>
   \<not> cleanup first_mount \<and> audioContextRef first_mount \<and>
   started (modal_run audioUtils [AudioArrived 1 ''AAAAAA=='']
      (onAudioData audioUtils 0 ''AAAA'' first_mount)) = [(1, 1 / 12000)] \<and>
   rejections (modal_run audioUtils [AudioArrived 1 ''AAAAAA=='']
      (onAudioData audioUtils 0 ''AAAA'' first_mount)) = [DecodeError]"
proof -
  have a: "base64ToUint8Array ''AAAA'' = Inr [0, 0, 0]"
    by (simp add: base64ToUint8Array_def b64_value_def b64_alphabet_def)
  have b: "odd (length [0 :: byte, 0, 0])" by simp
  have c: "\<not> cleanup first_mount" and d: "audioContextRef first_mount"
    by (simp_all add: first_mount_def modal_start_def)
  from malformed_chunk_dropped [OF a b c d, of 0 "[AudioArrived 1 ''AAAAAA=='']"] a c d
  show ?thesis
    by (simp add: first_mount_def modal_start_def onAudioData_def audioUtils_def base64ToUint8Array_def
        b64_value_def b64_alphabet_def decodeAudioData_def schedule_def duration_def Let_def)
qed

subsection \<open>The speaking indicator\<close>

lemma modal_step_talking:
  "isTalking (modal_step U e st) \<Longrightarrow> isTalking st \<or> (\<exists>t c. e = AudioArrived t c)"
  by (cases e) (simp_all add: modal_eqs split: if_splits)

lemma modal_run_talking:
  "isTalking (modal_run U evs st) \<Longrightarrow> isTalking st \<or> (\<exists>t c. AudioArrived t c \<in> set evs)"
proof (induction evs arbitrary: st)
  case Nil
  then show ?case by simp
next
  case (Cons e evs)
  from Cons.IH [of "modal_step U e st"] Cons.prems
  have "isTalking (modal_step U e st) \<or> (\<exists>t c. AudioArrived t c \<in> set evs)" by simp
  with modal_step_talking [of U e st] show ?case by auto
qed

text \<open>
  Claim C5, as the source has it. The claim says that the indicator is asserted exactly
  while the cursor is more than the guard interval ahead of the clock, as a derivation
  from the schedule. In the source the indicator is a state of its own: every chunk that
  arrives before the clean-up sets it, before anything is decoded or scheduled; the end of
  a source clears it when the clock has come within 0.1 s of the cursor and leaves it as
  it is when the cursor is more than 0.1 s ahead; no other event changes it. So it is
  asserted only if it was left asserted by the session before or a chunk has arrived.
\<close>

theorem indicator_set_and_cleared:
  assumes "st = modal_run U evs (modal_start cursor talking stopRef)"
  shows "(isTalking st \<longrightarrow> talking \<or> (\<exists>t c. AudioArrived t c \<in> set evs)) \<and>
         (\<not> cleanup st \<longrightarrow> isTalking (modal_step U (AudioArrived t c) st)) \<and>
         (cleanup st \<longrightarrow> isTalking (modal_step U (AudioArrived t c) st) = isTalking st) \<and>
         (isTalking (modal_step U (PlaybackEnded t) st) \<longleftrightarrow>
            isTalking st \<and> t < nextStartTime st - 1 / 10) \<and>
         (\<forall>e. (\<forall>t c. e \<noteq> AudioArrived t c) \<and> (\<forall>t. e \<noteq> PlaybackEnded t) \<longrightarrow>
            isTalking (modal_step U e st) = isTalking st)"
proof -
  have "isTalking (modal_start cursor talking stopRef) = talking"
    by (simp add: modal_start_def)
  with modal_run_talking [of U evs "modal_start cursor talking stopRef"]
  have a: "isTalking st \<longrightarrow> talking \<or> (\<exists>t c. AudioArrived t c \<in> set evs)"
    by (simp add: assms)
  have b: "\<not> cleanup st \<longrightarrow> isTalking (modal_step U (AudioArrived t c) st)"
    and c: "cleanup st \<longrightarrow> isTalking (modal_step U (AudioArrived t c) st) = isTalking st"
    by (cases "decode_chunk U c"; simp add: onAudioData_eq)+
  have d: "isTalking (modal_step U (PlaybackEnded t) st) \<longleftrightarrow>
           isTalking st \<and> t < nextStartTime st - 1 / 10"
    by (auto simp: onended_def)
  have e: "isTalking (modal_step U e st) = isTalking st"
    if "(\<forall>t c. e \<noteq> AudioArrived t c) \<and> (\<forall>t. e \<noteq> PlaybackEnded t)" for e
    using that by (cases e) (simp_all add: modal_eqs)
  from a b c d e show ?thesis by blast
qed

text \<open>
  Against claim C5 as stated: after one chunk of two samples the indicator is asserted,
  and the cursor is less than the guard interval ahead of the clock.
\<close>

theorem indicator_counterexample:
  "isTalking (modal_run audioUtils [AudioArrived 0 ''AAAAAA==''] first_mount) \<and>
   nextStartTime (modal_run audioUtils [AudioArrived 0 ''AAAAAA==''] first_mount) - 0
     \<le> 1 / 10"
  by (simp add: first_mount_def modal_start_def onAudioData_def audioUtils_def base64ToUint8Array_def
        b64_value_def b64_alphabet_def decodeAudioData_def schedule_def duration_def Let_def)

text \<open>
  A chunk sets the indicator; in a later session that found the cursor at 1, a source that
  ends at clock 0.05 leaves it set and one that ends at clock 1 clears it.
\<close>

theorem indicator_set_and_cleared_witness:
  "isTalking (modal_step audioUtils (AudioArrived 0 ''AAAAAA=='')
      (modal_run audioUtils [] (modal_start 0 False False))) \<and>
   isTalking (modal_step audioUtils (PlaybackEnded (1 / 20))
      (modal_run audioUtils [AudioArrived 0 ''AAAAAA=='', AudioArrived 0 ''AAAAAA=='']
         (modal_start 1 False True))) \<and>
   \<not> isTalking (modal_step audioUtils (PlaybackEnded 1)
      (modal_run audioUtils [AudioArrived 0 ''AAAAAA=='', AudioArrived 0 ''AAAAAA=='']
         (modal_start 1 False True)))"
  using indicator_set_and_cleared [where U = audioUtils and evs = "[]" and cursor = 0
        and talking = False and stopRef = False and t = 0 and c = "''AAAAAA==''", OF refl]
    indicator_set_and_cleared [where U = audioUtils
        and evs = "[AudioArrived 0 ''AAAAAA=='', AudioArrived 0 ''AAAAAA=='']" and cursor = 1
        and talking = False and stopRef = True and t = "1 / 20" and c = "[]", OF refl]
    indicator_set_and_cleared [where U = audioUtils
        and evs = "[AudioArrived 0 ''AAAAAA=='', AudioArrived 0 ''AAAAAA=='']" and cursor = 1
        and talking = False and stopRef = True and t = 1 and c = "[]", OF refl]
  by (simp add: modal_start_def onAudioData_def audioUtils_def base64ToUint8Array_def
        b64_value_def b64_alphabet_def decodeAudioData_def schedule_def duration_def Let_def)

end
